theory Spec2Isabelle
  imports Complex_Main "HOL-Library.Word"
begin

section \<open>Numbers and strings\<close>

text \<open>
  The TypeScript sources compute with JavaScript numbers. Pixel coordinates, sizes and
  measured text widths are modelled as \<^typ>\<open>real\<close>. The first model of every function
  computes exactly. Of the crop update there is a second model, in which every
  arithmetic operation is followed by a rounding function; with the rounding of IEEE
  binary64 it computes what the doubles of the program are.

  A JavaScript string is a sequence of UTF-16 code units, and \<^verbatim>\<open>text.split('')\<close>
  yields one one-unit string per code unit. A string is modelled as the list of its
  code units, string concatenation as list append.
\<close>

type_synonym codeunit = "16 word"
type_synonym jsstring = "codeunit list"

section \<open>The text renderer (wrapText and MemePreview)\<close>

text \<open>
  \<^verbatim>\<open>wrapText\<close> occurs twice in the repository, above \<^verbatim>\<open>MemePreview\<close> and in
  \<^verbatim>\<open>components/FloatingPreview.tsx\<close>, with the same body; one model serves both.

  The canvas context enters the model twice: \<^verbatim>\<open>ctx.measureText(s).width\<close> is a function
  from strings to widths, and the calls of \<^verbatim>\<open>ctx.strokeText\<close> and \<^verbatim>\<open>ctx.fillText\<close>
  are recorded, in the order in which they are made, as a list of draw calls.
\<close>

datatype drawcall =
    StrokeText jsstring real real
  | FillText jsstring real real

text \<open>
  The first loop of \<^verbatim>\<open>wrapText\<close>:
  \<^verbatim>\<open>
  for (let n = 0; n < characters.length; n++) {
    const testLine = line + characters[n];
    const testWidth = ctx.measureText(testLine).width;
    if (testWidth > maxWidth && n > 0) { lines.push(line); line = characters[n]; }
    else { line = testLine; }
  }
  \<close>
  The function returns the values of \<^verbatim>\<open>line\<close> and \<^verbatim>\<open>lines\<close> at the exit of the loop.
\<close>

function wrapLoop ::
  "(jsstring \<Rightarrow> real) \<Rightarrow> real \<Rightarrow> jsstring \<Rightarrow> nat \<Rightarrow> jsstring \<Rightarrow> jsstring list
     \<Rightarrow> jsstring \<times> jsstring list" where
  "wrapLoop measureText maxWidth characters n line lines =
     (if n < length characters then
        (let testLine = line @ [characters ! n];
             testWidth = measureText testLine
         in if testWidth > maxWidth \<and> n > 0
            then wrapLoop measureText maxWidth characters (n + 1) [characters ! n] (lines @ [line])
            else wrapLoop measureText maxWidth characters (n + 1) testLine lines)
      else (line, lines))"
  by pat_completeness auto
termination
  by (relation "measure (\<lambda>(m, w, cs, n, l, ls). length cs - n)") auto

declare wrapLoop.simps [simp del]

text \<open>The line list after the final \<^verbatim>\<open>lines.push(line)\<close>.\<close>

definition wrapLines :: "(jsstring \<Rightarrow> real) \<Rightarrow> real \<Rightarrow> jsstring \<Rightarrow> jsstring list" where
  "wrapLines measureText maxWidth text =
     (case wrapLoop measureText maxWidth text 0 [] [] of
        (line, lines) \<Rightarrow> lines @ [line])"

text \<open>
  The second loop of \<^verbatim>\<open>wrapText\<close>, from the last line to the first:
  \<^verbatim>\<open>
  for (let i = lines.length - 1; i >= 0; i--) {
    ctx.strokeText(lines[i], x, currentY);
    ctx.fillText(lines[i], x, currentY);
    currentY -= lineHeight;
  }
  \<close>
\<close>

function drawLoop :: "jsstring list \<Rightarrow> real \<Rightarrow> real \<Rightarrow> int \<Rightarrow> real \<Rightarrow> drawcall list" where
  "drawLoop lines x lineHeight i currentY =
     (if i \<ge> 0 then
        StrokeText (lines ! nat i) x currentY #
        FillText (lines ! nat i) x currentY #
        drawLoop lines x lineHeight (i - 1) (currentY - lineHeight)
      else [])"
  by pat_completeness auto
termination
  by (relation "measure (\<lambda>(ls, x, lh, i, y). nat (i + 1))") auto

declare drawLoop.simps [simp del]

definition wrapText ::
  "(jsstring \<Rightarrow> real) \<Rightarrow> jsstring \<Rightarrow> real \<Rightarrow> real \<Rightarrow> real \<Rightarrow> real \<Rightarrow> drawcall list" where
  "wrapText measureText text x y maxWidth lineHeight =
     (let lines = wrapLines measureText maxWidth text
      in drawLoop lines x lineHeight (int (length lines) - 1) y)"

text \<open>
  The text part of the \<^verbatim>\<open>img.onload\<close> handler of \<^verbatim>\<open>MemePreview\<close>. The handler sets
  \<^verbatim>\<open>ctx.font\<close> from the font size before it measures, so the measure function takes
  the font size as its first argument. The canvas element is created with width and
  height \<^verbatim>\<open>PREVIEW_SIZE\<close>.
\<close>

definition PREVIEW_SIZE :: real where
  "PREVIEW_SIZE = 512"

definition memePreviewDrawText ::
  "(real \<Rightarrow> jsstring \<Rightarrow> real) \<Rightarrow> real \<Rightarrow> real \<Rightarrow> jsstring \<Rightarrow> real \<Rightarrow> real \<Rightarrow> drawcall list" where
  "memePreviewDrawText measureText canvasWidth canvasHeight text fontSize textYOffset =
     (let calculatedFontSize = fontSize;
          x = canvasWidth / 2;
          y = canvasHeight - textYOffset;
          maxWidth = canvasWidth * 0.9;
          lineHeight = calculatedFontSize * 1.2
      in wrapText (measureText calculatedFontSize) text x y maxWidth lineHeight)"

subsection \<open>The wrap step in the specification's words\<close>

text \<open>
  This definition follows the specification, not the source: for each character, with
  \<open>candidate = line + character\<close>, the character is appended to the current line when
  the candidate does not exceed \<open>maxWidth\<close> or the current line is empty; otherwise the
  current line is pushed and a new line starts with just this character. The source
  tests the loop index (\<^verbatim>\<open>n > 0\<close>) where the specification tests the line.
\<close>

definition wrapStep_spec ::
  "(jsstring \<Rightarrow> real) \<Rightarrow> real \<Rightarrow> jsstring \<times> jsstring list \<Rightarrow> codeunit \<Rightarrow> jsstring \<times> jsstring list" where
  "wrapStep_spec measureText maxWidth st c =
     (case st of (line, lines) \<Rightarrow>
        if measureText (line @ [c]) \<le> maxWidth \<or> line = []
        then (line @ [c], lines)
        else ([c], lines @ [line]))"

subsection \<open>An example text and measure\<close>

text \<open>
  The three code units of the specification's example text (U+4F60, U+597D, U+5440),
  and a measure under which every code unit is as wide as the font size.
\<close>

abbreviation exampleText :: jsstring where
  "exampleText \<equiv> [0x4F60, 0x597D, 0x5440]"

abbreviation glyphWidth :: "real \<Rightarrow> jsstring \<Rightarrow> real" where
  "glyphWidth \<equiv> \<lambda>fontSize s. fontSize * real (length s)"

section \<open>The crop selection (ImageCropper)\<close>

text \<open>
  The component state of \<^verbatim>\<open>ImageCropper\<close> (its \<^verbatim>\<open>useState\<close> cells) is a record; every
  handler takes the state and returns the new one. The two DOM elements behind
  \<^verbatim>\<open>containerRef\<close> and \<^verbatim>\<open>imageRef\<close> are read-only inputs: of the container its bounding
  rectangle's corner and its client size, of the image its natural and its client
  (rendered) size. A \<^verbatim>\<open>ref.current\<close> that is null is \<open>None\<close>.
\<close>

record point =
  pt_x :: real
  pt_y :: real

record rect =
  rect_x :: real
  rect_y :: real
  rect_width :: real
  rect_height :: real

record image =
  naturalWidth :: real
  naturalHeight :: real
  imageClientWidth :: real
  imageClientHeight :: real

record container =
  rectLeft :: real
  rectTop :: real
  containerWidth :: real
  containerHeight :: real

record refs =
  containerRef :: "container option"
  imageRef :: "image option"

record cropper =
  cropBox :: rect
  isDragging :: bool
  isResizing :: bool
  startPos :: point
  scale :: point
  imageOffset :: point

datatype action = Drag | Resize


definition MIN_CROP_SIZE :: real where
  "MIN_CROP_SIZE = 50"

text \<open>The initial values of the \<^verbatim>\<open>useState\<close> cells.\<close>

definition initialCropper :: cropper where
  "initialCropper =
     \<lparr>cropBox = \<lparr>rect_x = 0, rect_y = 0, rect_width = MIN_CROP_SIZE, rect_height = MIN_CROP_SIZE\<rparr>,
      isDragging = False, isResizing = False,
      startPos = \<lparr>pt_x = 0, pt_y = 0\<rparr>,
      scale = \<lparr>pt_x = 1, pt_y = 1\<rparr>,
      imageOffset = \<lparr>pt_x = 0, pt_y = 0\<rparr>\<rparr>"

text \<open>
  \<^verbatim>\<open>convertDisplayToSourceCrop\<close> reads \<^verbatim>\<open>scale\<close> and \<^verbatim>\<open>imageOffset\<close> of the state.
\<close>

definition convertDisplayToSourceCrop :: "cropper \<Rightarrow> rect \<Rightarrow> rect" where
  "convertDisplayToSourceCrop s displayCrop =
     \<lparr>rect_x = (rect_x displayCrop - pt_x (imageOffset s)) * pt_x (scale s),
      rect_y = (rect_y displayCrop - pt_y (imageOffset s)) * pt_y (scale s),
      rect_width = rect_width displayCrop * pt_x (scale s),
      rect_height = rect_height displayCrop * pt_y (scale s)\<rparr>"

text \<open>
  \<^verbatim>\<open>handleImageLoad\<close>: nothing changes when the container is missing or a rendered
  dimension is zero; otherwise scale, offset and the initial centred square are set.
\<close>

definition handleImageLoad :: "container option \<Rightarrow> image \<Rightarrow> cropper \<Rightarrow> cropper" where
  "handleImageLoad cref img s =
     (case cref of
        None \<Rightarrow> s
      | Some cont \<Rightarrow>
          (let renderedWidth = imageClientWidth img;
               renderedHeight = imageClientHeight img
           in if renderedWidth = 0 \<or> renderedHeight = 0 then s
              else
                (let offsetX = (containerWidth cont - renderedWidth) / 2;
                     offsetY = (containerHeight cont - renderedHeight) / 2;
                     size = min renderedWidth renderedHeight * 0.8;
                     initialCrop =
                       \<lparr>rect_x = offsetX + (renderedWidth - size) / 2,
                        rect_y = offsetY + (renderedHeight - size) / 2,
                        rect_width = size,
                        rect_height = size\<rparr>
                 in s\<lparr>scale := \<lparr>pt_x = naturalWidth img / renderedWidth,
                               pt_y = naturalHeight img / renderedHeight\<rparr>,
                       imageOffset := \<lparr>pt_x = offsetX, pt_y = offsetY\<rparr>,
                       cropBox := initialCrop\<rparr>)))"

text \<open>
  \<^verbatim>\<open>getEventPos\<close>: the pointer position relative to the container; the argument is the
  event's \<^verbatim>\<open>(clientX, clientY)\<close>.
\<close>

definition getEventPos :: "container option \<Rightarrow> point \<Rightarrow> point" where
  "getEventPos cref client =
     (case cref of
        None \<Rightarrow> \<lparr>pt_x = 0, pt_y = 0\<rparr>
      | Some cont \<Rightarrow> \<lparr>pt_x = pt_x client - rectLeft cont, pt_y = pt_y client - rectTop cont\<rparr>)"

definition handleInteractionStart :: "refs \<Rightarrow> point \<Rightarrow> action \<Rightarrow> cropper \<Rightarrow> cropper" where
  "handleInteractionStart r client act s =
     (let pos = getEventPos (containerRef r) client;
          s1 = s\<lparr>startPos := pos\<rparr>
      in case act of
           Drag \<Rightarrow> s1\<lparr>isDragging := True\<rparr>
         | Resize \<Rightarrow> s1\<lparr>isResizing := True\<rparr>)"

text \<open>
  The updater passed to \<^verbatim>\<open>setCropBox\<close> in \<^verbatim>\<open>handleInteractionMove\<close> has two parts.
  The first is the \<^verbatim>\<open>if (isResizing) ... else if (isDragging) ...\<close> statement,
  \<^verbatim>\<open>Math.min(newSize, maxAllowedSizeX, maxAllowedSizeY)\<close> being a nested \<open>min\<close>.
\<close>

definition applyInteraction ::
  "bool \<Rightarrow> bool \<Rightarrow> point \<Rightarrow> real \<Rightarrow> real \<Rightarrow> real \<Rightarrow> real \<Rightarrow> rect \<Rightarrow> rect" where
  "applyInteraction resizing dragging offset imgW imgH deltaX deltaY prev =
     (if resizing then
        (let delta = max deltaX deltaY;
             newSize = rect_width prev + delta;
             newSize = max MIN_CROP_SIZE newSize;
             maxAllowedSizeX = (pt_x offset + imgW) - rect_x prev;
             maxAllowedSizeY = (pt_y offset + imgH) - rect_y prev;
             newSize = min (min newSize maxAllowedSizeX) maxAllowedSizeY
         in prev\<lparr>rect_width := newSize, rect_height := newSize\<rparr>)
      else if dragging then
        prev\<lparr>rect_x := rect_x prev + deltaX, rect_y := rect_y prev + deltaY\<rparr>
      else prev)"

text \<open>
  The second part is the code under the comment
  \<^verbatim>\<open>// Enforce boundaries for the crop box based on image offset and dimensions\<close>.
\<close>

definition enforceBoundaries :: "point \<Rightarrow> real \<Rightarrow> real \<Rightarrow> rect \<Rightarrow> rect" where
  "enforceBoundaries offset imgW imgH newCrop =
     (let minX = pt_x offset;
          minY = pt_y offset;
          maxX = pt_x offset + imgW - rect_width newCrop;
          maxY = pt_y offset + imgH - rect_height newCrop
      in newCrop\<lparr>rect_x := max minX (min (rect_x newCrop) maxX),
                  rect_y := max minY (min (rect_y newCrop) maxY)\<rparr>)"

text \<open>
  \<^verbatim>\<open>handleInteractionMove\<close> returns at once when no interaction is active or the image
  element is missing; otherwise it updates the crop box and sets \<^verbatim>\<open>startPos\<close> to the
  pointer position.
\<close>

definition handleInteractionMove :: "refs \<Rightarrow> point \<Rightarrow> cropper \<Rightarrow> cropper" where
  "handleInteractionMove r client s =
     (if \<not> isDragging s \<and> \<not> isResizing s then s
      else case imageRef r of
        None \<Rightarrow> s
      | Some img \<Rightarrow>
          (let pos = getEventPos (containerRef r) client;
               deltaX = pt_x pos - pt_x (startPos s);
               deltaY = pt_y pos - pt_y (startPos s);
               imgW = imageClientWidth img;
               imgH = imageClientHeight img;
               newCrop = applyInteraction (isResizing s) (isDragging s) (imageOffset s)
                           imgW imgH deltaX deltaY (cropBox s)
           in s\<lparr>cropBox := enforceBoundaries (imageOffset s) imgW imgH newCrop,
                 startPos := pos\<rparr>))"





subsection \<open>The crop update in rounded arithmetic\<close>

text \<open>
  A JavaScript number is an IEEE binary64 value, and \<^verbatim>\<open>+\<close>, \<^verbatim>\<open>-\<close>, \<^verbatim>\<open>*\<close> and \<^verbatim>\<open>/\<close> round
  their exact result to the nearest such value, ties to the even significand.
  \<open>binary64\<close> is that rounding on the reals: \<open>binade\<close> finds the exponent \<open>e\<close> with
  \<open>2 ^ e \<le> \<bar>x\<bar> < 2 ^ (e + 1)\<close> (the search is bounded by the exponent range of the
  format), and the value is rounded to a multiple of \<open>2 ^ (e - 52)\<close>. Overflow and
  subnormal numbers are not modelled; the values here are pixel coordinates.
\<close>

definition round_half_even :: "real \<Rightarrow> int" where
  "round_half_even x =
     (let f = \<lfloor>x\<rfloor>
      in if x - of_int f < 1 / 2 then f
         else if x - of_int f > 1 / 2 then f + 1
         else if even f then f else f + 1)"

fun binade :: "nat \<Rightarrow> real \<Rightarrow> int" where
  "binade 0 x = 0"
| "binade (Suc n) x =
     (if 2 \<le> \<bar>x\<bar> then binade n (x / 2) + 1
      else if \<bar>x\<bar> < 1 then binade n (x * 2) - 1
      else 0)"

definition scale2 :: "int \<Rightarrow> real" where
  "scale2 e = (if 0 \<le> e then 2 ^ nat e else 1 / 2 ^ nat (- e))"

definition binary64 :: "real \<Rightarrow> real" where
  "binary64 x =
     (if x = 0 then 0
      else (let e = binade 1100 x - 52
            in of_int (round_half_even (x / scale2 e)) * scale2 e))"

text \<open>
  The handlers again, with a rounding function \<open>rnd\<close> after every arithmetic operation
  of the source, in the order in which the source evaluates them
  (\<open>a + b - c\<close> is \<open>(a + b) - c\<close>). \<^verbatim>\<open>Math.max\<close> and \<^verbatim>\<open>Math.min\<close> do not round, the
  literal \<^verbatim>\<open>0.8\<close> is rounded when it is read, and the sizes and coordinates that come
  from the DOM are taken as they are.
\<close>

definition handleImageLoad_rnd ::
  "(real \<Rightarrow> real) \<Rightarrow> container option \<Rightarrow> image \<Rightarrow> cropper \<Rightarrow> cropper" where
  "handleImageLoad_rnd rnd cref img s =
     (case cref of
        None \<Rightarrow> s
      | Some cont \<Rightarrow>
          (let renderedWidth = imageClientWidth img;
               renderedHeight = imageClientHeight img
           in if renderedWidth = 0 \<or> renderedHeight = 0 then s
              else
                (let offsetX = rnd (rnd (containerWidth cont - renderedWidth) / 2);
                     offsetY = rnd (rnd (containerHeight cont - renderedHeight) / 2);
                     size = rnd (min renderedWidth renderedHeight * rnd 0.8);
                     initialCrop =
                       \<lparr>rect_x = rnd (offsetX + rnd (rnd (renderedWidth - size) / 2)),
                        rect_y = rnd (offsetY + rnd (rnd (renderedHeight - size) / 2)),
                        rect_width = size,
                        rect_height = size\<rparr>
                 in s\<lparr>scale := \<lparr>pt_x = rnd (naturalWidth img / renderedWidth),
                               pt_y = rnd (naturalHeight img / renderedHeight)\<rparr>,
                       imageOffset := \<lparr>pt_x = offsetX, pt_y = offsetY\<rparr>,
                       cropBox := initialCrop\<rparr>)))"

definition getEventPos_rnd :: "(real \<Rightarrow> real) \<Rightarrow> container option \<Rightarrow> point \<Rightarrow> point" where
  "getEventPos_rnd rnd cref client =
     (case cref of
        None \<Rightarrow> \<lparr>pt_x = 0, pt_y = 0\<rparr>
      | Some cont \<Rightarrow> \<lparr>pt_x = rnd (pt_x client - rectLeft cont),
                     pt_y = rnd (pt_y client - rectTop cont)\<rparr>)"

definition handleInteractionStart_rnd ::
  "(real \<Rightarrow> real) \<Rightarrow> refs \<Rightarrow> point \<Rightarrow> action \<Rightarrow> cropper \<Rightarrow> cropper" where
  "handleInteractionStart_rnd rnd r client act s =
     (let pos = getEventPos_rnd rnd (containerRef r) client;
          s1 = s\<lparr>startPos := pos\<rparr>
      in case act of
           Drag \<Rightarrow> s1\<lparr>isDragging := True\<rparr>
         | Resize \<Rightarrow> s1\<lparr>isResizing := True\<rparr>)"

definition applyInteraction_rnd ::
  "(real \<Rightarrow> real) \<Rightarrow> bool \<Rightarrow> bool \<Rightarrow> point \<Rightarrow> real \<Rightarrow> real \<Rightarrow> real \<Rightarrow> real \<Rightarrow> rect \<Rightarrow> rect" where
  "applyInteraction_rnd rnd resizing dragging offset imgW imgH deltaX deltaY prev =
     (if resizing then
        (let delta = max deltaX deltaY;
             newSize = rnd (rect_width prev + delta);
             newSize = max MIN_CROP_SIZE newSize;
             maxAllowedSizeX = rnd (rnd (pt_x offset + imgW) - rect_x prev);
             maxAllowedSizeY = rnd (rnd (pt_y offset + imgH) - rect_y prev);
             newSize = min (min newSize maxAllowedSizeX) maxAllowedSizeY
         in prev\<lparr>rect_width := newSize, rect_height := newSize\<rparr>)
      else if dragging then
        prev\<lparr>rect_x := rnd (rect_x prev + deltaX), rect_y := rnd (rect_y prev + deltaY)\<rparr>
      else prev)"

definition enforceBoundaries_rnd :: "(real \<Rightarrow> real) \<Rightarrow> point \<Rightarrow> real \<Rightarrow> real \<Rightarrow> rect \<Rightarrow> rect" where
  "enforceBoundaries_rnd rnd offset imgW imgH newCrop =
     (let minX = pt_x offset;
          minY = pt_y offset;
          maxX = rnd (rnd (pt_x offset + imgW) - rect_width newCrop);
          maxY = rnd (rnd (pt_y offset + imgH) - rect_height newCrop)
      in newCrop\<lparr>rect_x := max minX (min (rect_x newCrop) maxX),
                  rect_y := max minY (min (rect_y newCrop) maxY)\<rparr>)"

definition handleInteractionMove_rnd :: "(real \<Rightarrow> real) \<Rightarrow> refs \<Rightarrow> point \<Rightarrow> cropper \<Rightarrow> cropper" where
  "handleInteractionMove_rnd rnd r client s =
     (if \<not> isDragging s \<and> \<not> isResizing s then s
      else case imageRef r of
        None \<Rightarrow> s
      | Some img \<Rightarrow>
          (let pos = getEventPos_rnd rnd (containerRef r) client;
               deltaX = rnd (pt_x pos - pt_x (startPos s));
               deltaY = rnd (pt_y pos - pt_y (startPos s));
               imgW = imageClientWidth img;
               imgH = imageClientHeight img;
               newCrop = applyInteraction_rnd rnd (isResizing s) (isDragging s) (imageOffset s)
                           imgW imgH deltaX deltaY (cropBox s)
           in s\<lparr>cropBox := enforceBoundaries_rnd rnd (imageOffset s) imgW imgH newCrop,
                 startPos := pos\<rparr>))"

subsection \<open>Example geometries\<close>

text \<open>
  Two layouts used by the examples below: an image rendered at 400 by 400 in a container
  of the same size (offset (0, 0)), and a small image of natural and rendered size
  40 by 40 in a container of the same size.
\<close>

abbreviation img400 :: image where
  "img400 \<equiv> \<lparr>naturalWidth = 1000, naturalHeight = 1000,
              imageClientWidth = 400, imageClientHeight = 400\<rparr>"

abbreviation refs400 :: refs where
  "refs400 \<equiv>
     \<lparr>containerRef =
        Some \<lparr>rectLeft = 0, rectTop = 0, containerWidth = 400, containerHeight = 400\<rparr>,
      imageRef = Some img400\<rparr>"

abbreviation img40 :: image where
  "img40 \<equiv> \<lparr>naturalWidth = 40, naturalHeight = 40,
             imageClientWidth = 40, imageClientHeight = 40\<rparr>"

abbreviation container40 :: container where
  "container40 \<equiv> \<lparr>rectLeft = 0, rectTop = 0, containerWidth = 40, containerHeight = 40\<rparr>"

abbreviation refs40 :: refs where
  "refs40 \<equiv> \<lparr>containerRef = Some container40, imageRef = Some img40\<rparr>"


abbreviation resizing100 :: cropper where
  "resizing100 \<equiv>
     initialCropper\<lparr>cropBox :=
       \<lparr>rect_x = 100, rect_y = 100, rect_width = 100, rect_height = 100\<rparr>,
       isResizing := True, startPos := \<lparr>pt_x = 200, pt_y = 200\<rparr>\<rparr>"

text \<open>
  An image of natural and rendered size 182 by 182 in a 400 by 400 container, the state
  after its load in binary64 arithmetic, and that state after a pointer-down on the
  resize handle at (250, 250).
\<close>

abbreviation img182 :: image where
  "img182 \<equiv> \<lparr>naturalWidth = 182, naturalHeight = 182,
              imageClientWidth = 182, imageClientHeight = 182\<rparr>"

abbreviation refs182 :: refs where
  "refs182 \<equiv>
     \<lparr>containerRef =
        Some \<lparr>rectLeft = 0, rectTop = 0, containerWidth = 400, containerHeight = 400\<rparr>,
      imageRef = Some img182\<rparr>"

abbreviation loaded182 :: cropper where
  "loaded182 \<equiv>
     handleImageLoad_rnd binary64
       (Some \<lparr>rectLeft = 0, rectTop = 0, containerWidth = 400, containerHeight = 400\<rparr>)
       img182 initialCropper"

abbreviation resizing182 :: cropper where
  "resizing182 \<equiv>
     handleInteractionStart_rnd binary64 refs182 \<lparr>pt_x = 250, pt_y = 250\<rparr> Resize loaded182"

text \<open>
  A rounding that is not the program's, to the next integer above (it is monotone and
  easy to follow by hand), and a state in Resizing mode whose crop rectangle has the
  corner (100.5, 100.5).
\<close>

abbreviation roundUp :: "real \<Rightarrow> real" where
  "roundUp \<equiv> \<lambda>t. of_int \<lceil>t\<rceil>"

abbreviation resizingHalf :: cropper where
  "resizingHalf \<equiv>
     resizing100\<lparr>cropBox :=
       \<lparr>rect_x = 100.5, rect_y = 100.5, rect_width = 100, rect_height = 100\<rparr>\<rparr>"

section \<open>Properties of the wrap loop\<close>

lemma wrapLoop_step:
  "n < length cs \<Longrightarrow>
   wrapLoop m w cs n l ls =
     (if m (l @ [cs ! n]) > w \<and> n > 0
      then wrapLoop m w cs (Suc n) [cs ! n] (ls @ [l])
      else wrapLoop m w cs (Suc n) (l @ [cs ! n]) ls)"
  by (subst wrapLoop.simps) (simp add: Let_def)

lemma wrapLoop_exit: "\<not> n < length cs \<Longrightarrow> wrapLoop m w cs n l ls = (l, ls)"
  by (subst wrapLoop.simps) simp

lemma wrapLoop_concat:
  "concat (snd (wrapLoop m w cs n l ls)) @ fst (wrapLoop m w cs n l ls)
     = concat ls @ l @ drop n cs"
proof (induction m w cs n l ls rule: wrapLoop.induct)
  case (1 m w cs n l ls)
  show ?case
  proof (cases "n < length cs")
    case False
    then show ?thesis by (simp add: wrapLoop_exit)
  next
    case True
    have d: "drop n cs = cs ! n # drop (Suc n) cs"
      using True by (simp add: Cons_nth_drop_Suc)
    show ?thesis
    proof (cases "m (l @ [cs ! n]) > w \<and> n > 0")
      case brk: True
      have "wrapLoop m w cs n l ls = wrapLoop m w cs (Suc n) [cs ! n] (ls @ [l])"
        using True brk by (simp only: wrapLoop_step if_True simp_thms)
      moreover have "concat (snd (wrapLoop m w cs (Suc n) [cs ! n] (ls @ [l])))
            @ fst (wrapLoop m w cs (Suc n) [cs ! n] (ls @ [l]))
          = concat (ls @ [l]) @ [cs ! n] @ drop (Suc n) cs"
        using 1(1) [OF True refl refl brk] by simp
      ultimately show ?thesis by (simp add: d)
    next
      case nobrk: False
      have "wrapLoop m w cs n l ls = wrapLoop m w cs (Suc n) (l @ [cs ! n]) ls"
        using True nobrk by (simp only: wrapLoop_step if_False simp_thms)
      moreover have "concat (snd (wrapLoop m w cs (Suc n) (l @ [cs ! n]) ls))
            @ fst (wrapLoop m w cs (Suc n) (l @ [cs ! n]) ls)
          = concat ls @ (l @ [cs ! n]) @ drop (Suc n) cs"
        using 1(2) [OF True refl refl nobrk] by simp
      ultimately show ?thesis by (simp add: d)
    qed
  qed
qed

lemma wrapLines_concat: "concat (wrapLines m w t) = t"
  using wrapLoop_concat [of m w t 0 "[]" "[]"]
  by (cases "wrapLoop m w t 0 [] []") (simp add: wrapLines_def)

lemma wrapLoop_break:
  "n < length cs \<Longrightarrow> m (l @ [cs ! n]) > w \<Longrightarrow> n > 0 \<Longrightarrow>
   wrapLoop m w cs n l ls = wrapLoop m w cs (Suc n) [cs ! n] (ls @ [l])"
  by (simp only: wrapLoop_step if_True simp_thms)

lemma wrapLoop_append:
  "n < length cs \<Longrightarrow> m (l @ [cs ! n]) \<le> w \<or> n = 0 \<Longrightarrow>
   wrapLoop m w cs n l ls = wrapLoop m w cs (Suc n) (l @ [cs ! n]) ls"
  by (subst wrapLoop_step) auto

lemma wrapLoop_foldl:
  "(n = 0 \<longleftrightarrow> l = []) \<Longrightarrow>
   wrapLoop m w cs n l ls = foldl (wrapStep_spec m w) (l, ls) (drop n cs)"
proof (induction m w cs n l ls rule: wrapLoop.induct)
  case (1 m w cs n l ls)
  show ?case
  proof (cases "n < length cs")
    case False
    then show ?thesis by (simp add: wrapLoop_exit)
  next
    case True
    have d: "drop n cs = cs ! n # drop (Suc n) cs"
      using True by (simp add: Cons_nth_drop_Suc)
    show ?thesis
    proof (cases "m (l @ [cs ! n]) > w \<and> n > 0")
      case brk: True
      have "wrapLoop m w cs (n + 1) [cs ! n] (ls @ [l])
          = foldl (wrapStep_spec m w) ([cs ! n], ls @ [l]) (drop (n + 1) cs)"
        by (rule 1(1) [OF True refl refl brk]) simp
      moreover have "wrapStep_spec m w (l, ls) (cs ! n) = ([cs ! n], ls @ [l])"
        using brk 1(3) by (simp add: wrapStep_spec_def)
      ultimately show ?thesis
        using True brk by (simp add: wrapLoop_break d)
    next
      case nobrk: False
      have "wrapLoop m w cs (n + 1) (l @ [cs ! n]) ls
          = foldl (wrapStep_spec m w) (l @ [cs ! n], ls) (drop (n + 1) cs)"
        by (rule 1(2) [OF True refl refl nobrk]) simp
      moreover have "wrapStep_spec m w (l, ls) (cs ! n) = (l @ [cs ! n], ls)"
        using nobrk 1(3) by (auto simp add: wrapStep_spec_def)
      moreover have "wrapLoop m w cs n l ls = wrapLoop m w cs (Suc n) (l @ [cs ! n]) ls"
        using True nobrk by (intro wrapLoop_append) auto
      ultimately show ?thesis
        by (simp add: d)
    qed
  qed
qed

lemma wrapLoop_lines_fit:
  assumes "\<forall>x\<in>set ls. m x \<le> w \<or> length x = 1"
    and "if n = 0 then l = [] \<and> (n < length cs \<or> m [] \<le> w) else m l \<le> w \<or> length l = 1"
  shows "\<forall>x\<in>set (snd (wrapLoop m w cs n l ls) @ [fst (wrapLoop m w cs n l ls)]).
           m x \<le> w \<or> length x = 1"
  using assms
proof (induction m w cs n l ls rule: wrapLoop.induct)
  case (1 m w cs n l ls)
  show ?case
  proof (cases "n < length cs")
    case False
    then show ?thesis using 1(3,4) by (auto simp add: wrapLoop_exit split: if_splits)
  next
    case True
    show ?thesis
    proof (cases "m (l @ [cs ! n]) > w \<and> n > 0")
      case brk: True
      have "\<forall>x\<in>set (snd (wrapLoop m w cs (n + 1) [cs ! n] (ls @ [l])) @
                  [fst (wrapLoop m w cs (n + 1) [cs ! n] (ls @ [l]))]).
              m x \<le> w \<or> length x = 1"
        using 1(3,4) brk by (intro 1(1) [OF True refl refl brk]) auto
      then show ?thesis
        using True brk by (simp add: wrapLoop_break)
    next
      case nobrk: False
      have "\<forall>x\<in>set (snd (wrapLoop m w cs (n + 1) (l @ [cs ! n]) ls) @
                  [fst (wrapLoop m w cs (n + 1) (l @ [cs ! n]) ls)]).
              m x \<le> w \<or> length x = 1"
        using 1(3,4) nobrk by (intro 1(2) [OF True refl refl nobrk]) (auto split: if_splits)
      moreover have "wrapLoop m w cs n l ls = wrapLoop m w cs (Suc n) (l @ [cs ! n]) ls"
        using True nobrk by (intro wrapLoop_append) auto
      ultimately show ?thesis by simp
    qed
  qed
qed

lemma wrapLines_Nil: "wrapLines m w [] = [[]]"
  by (simp add: wrapLines_def wrapLoop_exit)

lemma foldl_wrap_single:
  assumes "\<forall>x\<in>set ls. foldl (wrapStep_spec m w) ([], []) x = (x, [])"
    and "foldl (wrapStep_spec m w) ([], []) l = (l, [])"
  shows "(\<forall>x\<in>set (snd (foldl (wrapStep_spec m w) (l, ls) cs)).
            foldl (wrapStep_spec m w) ([], []) x = (x, []))
         \<and> foldl (wrapStep_spec m w) ([], []) (fst (foldl (wrapStep_spec m w) (l, ls) cs))
             = (fst (foldl (wrapStep_spec m w) (l, ls) cs), [])"
  using assms
proof (induction cs arbitrary: l ls)
  case Nil
  then show ?case by simp
next
  case (Cons c cs)
  show ?case
  proof (cases "m (l @ [c]) \<le> w \<or> l = []")
    case True
    then have s: "wrapStep_spec m w (l, ls) c = (l @ [c], ls)"
      by (simp add: wrapStep_spec_def)
    have "foldl (wrapStep_spec m w) ([], []) (l @ [c]) = wrapStep_spec m w (l, []) c"
      using Cons.prems(2) by simp
    also have "\<dots> = (l @ [c], [])"
      using True by (simp add: wrapStep_spec_def)
    finally have "foldl (wrapStep_spec m w) ([], []) (l @ [c]) = (l @ [c], [])" .
    from Cons.IH [OF Cons.prems(1) this] show ?thesis
      by (simp add: s)
  next
    case False
    then have s: "wrapStep_spec m w (l, ls) c = ([c], ls @ [l])"
      by (simp add: wrapStep_spec_def)
    have a: "\<forall>x\<in>set (ls @ [l]). foldl (wrapStep_spec m w) ([], []) x = (x, [])"
      using Cons.prems by simp
    have b: "foldl (wrapStep_spec m w) ([], []) [c] = ([c], [])"
      by (simp add: wrapStep_spec_def)
    from Cons.IH [OF a b] show ?thesis
      by (simp add: s)
  qed
qed

lemma wrapLines_foldl:
  "wrapLines m w t = snd (foldl (wrapStep_spec m w) ([], []) t)
                       @ [fst (foldl (wrapStep_spec m w) ([], []) t)]"
  using wrapLoop_foldl [of 0 "[]" m w t "[]"]
  by (simp add: wrapLines_def split: prod.splits)

lemma wrapLines_each_line:
  assumes "x \<in> set (wrapLines m w t)"
  shows "wrapLines m w x = [x]"
proof -
  let ?r = "foldl (wrapStep_spec m w) ([], []) t"
  have s: "(\<forall>y\<in>set (snd ?r). foldl (wrapStep_spec m w) ([], []) y = (y, []))
         \<and> foldl (wrapStep_spec m w) ([], []) (fst ?r) = (fst ?r, [])"
    by (rule foldl_wrap_single) simp_all
  from assms have "x \<in> set (snd ?r) \<or> x = fst ?r"
    by (simp only: wrapLines_foldl set_append set_simps Un_iff insert_iff empty_iff simp_thms)
  with s have "foldl (wrapStep_spec m w) ([], []) x = (x, [])"
    by blast
  then show ?thesis
    by (simp only: wrapLines_foldl fst_conv snd_conv append_Nil)
qed

lemma drawLoop_neg: "i < 0 \<Longrightarrow> drawLoop ls x lh i y = []"
  by (subst drawLoop.simps) simp

lemma drawLoop_nonneg:
  "0 \<le> i \<Longrightarrow> drawLoop ls x lh i y =
     StrokeText (ls ! nat i) x y # FillText (ls ! nat i) x y # drawLoop ls x lh (i - 1) (y - lh)"
  by (subst drawLoop.simps) simp

lemma drawLoop_prefix:
  "i < int (length ls) \<Longrightarrow> drawLoop (ls @ zs) x lh i y = drawLoop ls x lh i y"
proof (induction ls x lh i y rule: drawLoop.induct)
  case (1 ls x lh i y)
  show ?case
  proof (cases "0 \<le> i")
    case False
    then show ?thesis by (simp add: drawLoop_neg)
  next
    case True
    have "i - 1 < int (length ls)"
      using 1(2) by simp
    then have "drawLoop (ls @ zs) x lh (i - 1) (y - lh) = drawLoop ls x lh (i - 1) (y - lh)"
      by (rule 1(1) [OF True])
    moreover have "(ls @ zs) ! nat i = ls ! nat i"
      using 1(2) True by (simp add: nth_append nat_less_iff)
    ultimately show ?thesis
      by (simp only: drawLoop_nonneg [OF True])
  qed
qed

lemma enumerate_shift:
  "map (\<lambda>(j, l). f (Suc j) l) (enumerate n xs) = map (\<lambda>(j, l). f j l) (enumerate (Suc n) xs)"
  by (induction xs arbitrary: n) simp_all

lemma drawLoop_enumerate:
  "drawLoop ls x lh (int (length ls) - 1) y =
     concat (map (\<lambda>(j, l). [StrokeText l x (y - real j * lh), FillText l x (y - real j * lh)])
                 (enumerate 0 (rev ls)))"
proof (induction ls arbitrary: y rule: rev_induct)
  case Nil
  show ?case by (simp add: drawLoop_neg)
next
  case (snoc l ls)
  have "drawLoop (ls @ [l]) x lh (int (length ls) - 1) (y - lh)
      = drawLoop ls x lh (int (length ls) - 1) (y - lh)"
    by (rule drawLoop_prefix) simp
  also have "\<dots> = concat (map (\<lambda>(j, l). [StrokeText l x (y - lh - real j * lh),
                                           FillText l x (y - lh - real j * lh)])
                               (enumerate 0 (rev ls)))"
    by (rule snoc.IH)
  also have "\<dots> = concat (map (\<lambda>(j, l). [StrokeText l x (y - real (Suc j) * lh),
                                           FillText l x (y - real (Suc j) * lh)])
                               (enumerate 0 (rev ls)))"
    by (simp add: algebra_simps)
  also have "\<dots> = concat (map (\<lambda>(j, l). [StrokeText l x (y - real j * lh),
                                           FillText l x (y - real j * lh)])
                               (enumerate (Suc 0) (rev ls)))"
    by (simp only: enumerate_shift
        [of "\<lambda>j l. [StrokeText l x (y - real j * lh), FillText l x (y - real j * lh)]"])
  finally show ?case
    by (simp add: drawLoop_nonneg)
qed

lemma wrapText_Nil: "wrapText m [] x y w lh = [StrokeText [] x y, FillText [] x y]"
  by (simp add: wrapText_def wrapLines_Nil drawLoop_nonneg drawLoop_neg)

text \<open>A text of which every prefix of two or more code units fits is not broken.\<close>

lemma wrapLoop_prefixes_fit:
  assumes "\<forall>k. 2 \<le> k \<and> k \<le> length t \<longrightarrow> m (take k t) \<le> w"
    and "n \<le> length t"
  shows "wrapLoop m w t n (take n t) [] = (t, [])"
  using assms(2)
proof (induction "length t - n" arbitrary: n)
  case 0
  then show ?case by (simp add: wrapLoop_exit)
next
  case (Suc d)
  then have n: "n < length t" by simp
  have tk: "take n t @ [t ! n] = take (Suc n) t"
    using n by (simp add: take_Suc_conv_app_nth)
  have fit: "m (take n t @ [t ! n]) \<le> w \<or> n = 0"
    using assms(1) n unfolding tk by (cases n) auto
  have "wrapLoop m w t n (take n t) [] = wrapLoop m w t (Suc n) (take n t @ [t ! n]) []"
    using n fit by (rule wrapLoop_append)
  also have "\<dots> = (t, [])"
    unfolding tk using Suc.hyps(2) n by (intro Suc.hyps(1)) simp_all
  finally show ?case .
qed

lemma wrapLines_prefixes_fit:
  assumes "\<forall>k. 2 \<le> k \<and> k \<le> length t \<longrightarrow> m (take k t) \<le> w"
  shows "wrapLines m w t = [t]"
  using wrapLoop_prefixes_fit [OF assms, of 0] by (simp add: wrapLines_def)

section \<open>Properties of the crop update\<close>

lemma enforceBoundaries_fields:
  "rect_x (enforceBoundaries off W H c) = max (pt_x off) (min (rect_x c) (pt_x off + W - rect_width c))"
  "rect_y (enforceBoundaries off W H c) = max (pt_y off) (min (rect_y c) (pt_y off + H - rect_height c))"
  "rect_width (enforceBoundaries off W H c) = rect_width c"
  "rect_height (enforceBoundaries off W H c) = rect_height c"
  by (simp_all add: enforceBoundaries_def Let_def)

lemma applyInteraction_resize_fields:
  "rect_x (applyInteraction True dg off W H dx dy c) = rect_x c"
  "rect_y (applyInteraction True dg off W H dx dy c) = rect_y c"
  "rect_width (applyInteraction True dg off W H dx dy c) =
     min (min (max MIN_CROP_SIZE (rect_width c + max dx dy)) (pt_x off + W - rect_x c))
         (pt_y off + H - rect_y c)"
  "rect_height (applyInteraction True dg off W H dx dy c) =
     min (min (max MIN_CROP_SIZE (rect_width c + max dx dy)) (pt_x off + W - rect_x c))
         (pt_y off + H - rect_y c)"
  by (simp_all add: applyInteraction_def Let_def)




lemma resize_size_bounds:
  fixes m w g a b :: real
  defines "N \<equiv> min (min (max m (w + g)) a) b"
  shows "N \<le> a" and "N \<le> b" and "m \<le> a \<Longrightarrow> m \<le> b \<Longrightarrow> m \<le> N"
  unfolding N_def by simp_all

lemma clamp_size_props:
  fixes m v a b :: real
  shows "min (min (max m v) a) b = min (max m v) (min a b)"
    and "min (max m v) (min a b) \<le> min a b"
    and "m \<le> min a b \<Longrightarrow> m \<le> min (max m v) (min a b)"
  by linarith+

lemma reclamp_fixed:
  fixes lo v hi :: real
  shows "lo \<le> v \<Longrightarrow> v \<le> hi \<Longrightarrow> max lo (min v hi) = v"
  by simp






lemma handleInteractionMove_resizing:
  assumes "isResizing s" and "imageRef r = Some img"
  shows "cropBox (handleInteractionMove r client s) =
     enforceBoundaries (imageOffset s) (imageClientWidth img) (imageClientHeight img)
       (applyInteraction True (isDragging s) (imageOffset s)
          (imageClientWidth img) (imageClientHeight img)
          (pt_x (getEventPos (containerRef r) client) - pt_x (startPos s))
          (pt_y (getEventPos (containerRef r) client) - pt_y (startPos s))
          (cropBox s))"
  using assms by (simp add: handleInteractionMove_def Let_def)

lemma resize_reclamp_noop:
  assumes "pt_x off \<le> rect_x c" and "pt_y off \<le> rect_y c"
  shows "enforceBoundaries off W H (applyInteraction True dg off W H dx dy c)
           = applyInteraction True dg off W H dx dy c"
proof -
  define N where "N = min (min (max MIN_CROP_SIZE (rect_width c + max dx dy))
                              (pt_x off + W - rect_x c)) (pt_y off + H - rect_y c)"
  have N1: "N \<le> pt_x off + W - rect_x c" and N2: "N \<le> pt_y off + H - rect_y c"
    unfolding N_def by (rule resize_size_bounds)+
  have x: "max (pt_x off) (min (rect_x c) (pt_x off + W - N)) = rect_x c"
    using assms N1 by (intro reclamp_fixed) linarith+
  have y: "max (pt_y off) (min (rect_y c) (pt_y off + H - N)) = rect_y c"
    using assms N2 by (intro reclamp_fixed) linarith+
  have "applyInteraction True dg off W H dx dy c = c\<lparr>rect_width := N, rect_height := N\<rparr>"
    by (simp add: applyInteraction_def Let_def N_def)
  then show ?thesis
    using x y by (simp add: enforceBoundaries_def Let_def)
qed

lemma resize_size_formula:
  assumes "isResizing s" and "imageRef r = Some img"
  shows "rect_width (cropBox (handleInteractionMove r client s)) =
           min (max MIN_CROP_SIZE
                  (rect_width (cropBox s)
                   + max (pt_x (getEventPos (containerRef r) client) - pt_x (startPos s))
                         (pt_y (getEventPos (containerRef r) client) - pt_y (startPos s))))
               (min (pt_x (imageOffset s) + imageClientWidth img - rect_x (cropBox s))
                    (pt_y (imageOffset s) + imageClientHeight img - rect_y (cropBox s)))
       \<and> rect_height (cropBox (handleInteractionMove r client s))
           = rect_width (cropBox (handleInteractionMove r client s))
       \<and> rect_width (cropBox (handleInteractionMove r client s))
           \<le> min (pt_x (imageOffset s) + imageClientWidth img - rect_x (cropBox s))
                 (pt_y (imageOffset s) + imageClientHeight img - rect_y (cropBox s))
       \<and> (MIN_CROP_SIZE \<le> min (pt_x (imageOffset s) + imageClientWidth img - rect_x (cropBox s))
                               (pt_y (imageOffset s) + imageClientHeight img - rect_y (cropBox s))
            \<longrightarrow> MIN_CROP_SIZE \<le> rect_width (cropBox (handleInteractionMove r client s)))"
proof -
  let ?v = "rect_width (cropBox s)
                   + max (pt_x (getEventPos (containerRef r) client) - pt_x (startPos s))
                         (pt_y (getEventPos (containerRef r) client) - pt_y (startPos s))"
  let ?a = "pt_x (imageOffset s) + imageClientWidth img - rect_x (cropBox s)"
  let ?b = "pt_y (imageOffset s) + imageClientHeight img - rect_y (cropBox s)"
  have w: "rect_width (cropBox (handleInteractionMove r client s))
             = min (max MIN_CROP_SIZE ?v) (min ?a ?b)"
    by (simp only: handleInteractionMove_resizing [OF assms] enforceBoundaries_fields
          applyInteraction_resize_fields clamp_size_props(1))
  have h: "rect_height (cropBox (handleInteractionMove r client s))
             = min (max MIN_CROP_SIZE ?v) (min ?a ?b)"
    by (simp only: handleInteractionMove_resizing [OF assms] enforceBoundaries_fields
          applyInteraction_resize_fields clamp_size_props(1))
  show ?thesis
    unfolding w h
    using clamp_size_props(2) [where m = MIN_CROP_SIZE and v = ?v and a = ?a and b = ?b]
      clamp_size_props(3) [where m = MIN_CROP_SIZE and v = ?v and a = ?a and b = ?b]
    by blast
qed

subsection \<open>The rounded crop update\<close>

lemma exact_rounding:
  "handleImageLoad_rnd (\<lambda>t. t) = handleImageLoad"
  "getEventPos_rnd (\<lambda>t. t) = getEventPos"
  "applyInteraction_rnd (\<lambda>t. t) = applyInteraction"
  "enforceBoundaries_rnd (\<lambda>t. t) = enforceBoundaries"
  by (intro ext, simp add: handleImageLoad_rnd_def handleImageLoad_def getEventPos_rnd_def
        getEventPos_def applyInteraction_rnd_def applyInteraction_def
        enforceBoundaries_rnd_def enforceBoundaries_def)+

lemma handleInteractionMove_exact:
  "handleInteractionMove_rnd (\<lambda>t. t) r client s = handleInteractionMove r client s"
  by (simp add: handleInteractionMove_rnd_def handleInteractionMove_def exact_rounding
        split: option.splits)

lemma enforceBoundaries_rnd_fields:
  "rect_x (enforceBoundaries_rnd rnd off W H c)
     = max (pt_x off) (min (rect_x c) (rnd (rnd (pt_x off + W) - rect_width c)))"
  "rect_y (enforceBoundaries_rnd rnd off W H c)
     = max (pt_y off) (min (rect_y c) (rnd (rnd (pt_y off + H) - rect_height c)))"
  "rect_width (enforceBoundaries_rnd rnd off W H c) = rect_width c"
  "rect_height (enforceBoundaries_rnd rnd off W H c) = rect_height c"
  by (simp_all add: enforceBoundaries_rnd_def Let_def)

lemma applyInteraction_rnd_resize_fields:
  "rect_x (applyInteraction_rnd rnd True dg off W H dx dy c) = rect_x c"
  "rect_y (applyInteraction_rnd rnd True dg off W H dx dy c) = rect_y c"
  "rect_width (applyInteraction_rnd rnd True dg off W H dx dy c) =
     min (min (max MIN_CROP_SIZE (rnd (rect_width c + max dx dy)))
              (rnd (rnd (pt_x off + W) - rect_x c)))
         (rnd (rnd (pt_y off + H) - rect_y c))"
  "rect_height (applyInteraction_rnd rnd True dg off W H dx dy c) =
     min (min (max MIN_CROP_SIZE (rnd (rect_width c + max dx dy)))
              (rnd (rnd (pt_x off + W) - rect_x c)))
         (rnd (rnd (pt_y off + H) - rect_y c))"
  by (simp_all add: applyInteraction_rnd_def Let_def)

lemma handleInteractionMove_rnd_resizing:
  assumes "isResizing s" and "imageRef r = Some img"
  shows "cropBox (handleInteractionMove_rnd rnd r client s) =
     enforceBoundaries_rnd rnd (imageOffset s) (imageClientWidth img) (imageClientHeight img)
       (applyInteraction_rnd rnd True (isDragging s) (imageOffset s)
          (imageClientWidth img) (imageClientHeight img)
          (rnd (pt_x (getEventPos_rnd rnd (containerRef r) client) - pt_x (startPos s)))
          (rnd (pt_y (getEventPos_rnd rnd (containerRef r) client) - pt_y (startPos s)))
          (cropBox s))"
  using assms by (simp add: handleInteractionMove_rnd_def Let_def)

lemma reclamp_between:
  fixes lo v hi :: real
  shows "lo \<le> v \<Longrightarrow> lo \<le> max lo (min v hi) \<and> max lo (min v hi) \<le> v"
  by simp

lemma reclamp_lower:
  fixes lo v hi b :: real
  shows "b \<le> hi \<Longrightarrow> min v b \<le> max lo (min v hi)"
  by linarith

lemma resize_rnd_corner_x:
  assumes "pt_x off \<le> rect_x c"
  shows "pt_x off \<le> rect_x (enforceBoundaries_rnd rnd off W H
                               (applyInteraction_rnd rnd True dg off W H dx dy c))
       \<and> rect_x (enforceBoundaries_rnd rnd off W H
                     (applyInteraction_rnd rnd True dg off W H dx dy c)) \<le> rect_x c"
  unfolding enforceBoundaries_rnd_fields applyInteraction_rnd_resize_fields
  using assms by (rule reclamp_between)

lemma resize_rnd_corner_y:
  assumes "pt_y off \<le> rect_y c"
  shows "pt_y off \<le> rect_y (enforceBoundaries_rnd rnd off W H
                               (applyInteraction_rnd rnd True dg off W H dx dy c))
       \<and> rect_y (enforceBoundaries_rnd rnd off W H
                     (applyInteraction_rnd rnd True dg off W H dx dy c)) \<le> rect_y c"
  unfolding enforceBoundaries_rnd_fields applyInteraction_rnd_resize_fields
  using assms by (rule reclamp_between)

lemma resize_rnd_drift_x:
  assumes "mono rnd"
  shows "min (rect_x c) (rnd (rnd (pt_x off + W) - rnd (rnd (pt_x off + W) - rect_x c)))
       \<le> rect_x (enforceBoundaries_rnd rnd off W H
                    (applyInteraction_rnd rnd True dg off W H dx dy c))"
proof -
  define N where "N = min (min (max MIN_CROP_SIZE (rnd (rect_width c + max dx dy)))
              (rnd (rnd (pt_x off + W) - rect_x c)))
         (rnd (rnd (pt_y off + H) - rect_y c))"
  have "N \<le> rnd (rnd (pt_x off + W) - rect_x c)"
    unfolding N_def by simp
  then have "rnd (pt_x off + W) - rnd (rnd (pt_x off + W) - rect_x c) \<le> rnd (pt_x off + W) - N"
    by simp
  then have "rnd (rnd (pt_x off + W) - rnd (rnd (pt_x off + W) - rect_x c))
           \<le> rnd (rnd (pt_x off + W) - N)"
    by (rule monoD [OF assms])
  then show ?thesis
    unfolding enforceBoundaries_rnd_fields applyInteraction_rnd_resize_fields N_def [symmetric]
    by (rule reclamp_lower)
qed

lemma resize_rnd_drift_y:
  assumes "mono rnd"
  shows "min (rect_y c) (rnd (rnd (pt_y off + H) - rnd (rnd (pt_y off + H) - rect_y c)))
       \<le> rect_y (enforceBoundaries_rnd rnd off W H
                    (applyInteraction_rnd rnd True dg off W H dx dy c))"
proof -
  define N where "N = min (min (max MIN_CROP_SIZE (rnd (rect_width c + max dx dy)))
              (rnd (rnd (pt_x off + W) - rect_x c)))
         (rnd (rnd (pt_y off + H) - rect_y c))"
  have "N \<le> rnd (rnd (pt_y off + H) - rect_y c)"
    unfolding N_def by simp
  then have "rnd (pt_y off + H) - rnd (rnd (pt_y off + H) - rect_y c) \<le> rnd (pt_y off + H) - N"
    by simp
  then have "rnd (rnd (pt_y off + H) - rnd (rnd (pt_y off + H) - rect_y c))
           \<le> rnd (rnd (pt_y off + H) - N)"
    by (rule monoD [OF assms])
  then show ?thesis
    unfolding enforceBoundaries_rnd_fields applyInteraction_rnd_resize_fields N_def [symmetric]
    by (rule reclamp_lower)
qed

text \<open>Evaluation of the binary64 rounding at the values of the 182 by 182 example.\<close>

lemma binade_numeral [simp]:
  "binade (numeral k) x =
     (if 2 \<le> \<bar>x\<bar> then binade (pred_numeral k) (x / 2) + 1
      else if \<bar>x\<bar> < 1 then binade (pred_numeral k) (x * 2) - 1
      else 0)"
  by (simp add: numeral_eq_Suc)

lemma binary64_values:
  "binary64 218 = 218" "binary64 109 = 109" "binary64 1 = 1" "binary64 250 = 250"
  "binary64 1250 = 1250" "binary64 260 = 260" "binary64 1000 = 1000" "binary64 10 = 10"
  "binary64 291 = 291"
  "binary64 (4 / 5) = 3602879701896397 / 4503599627370496"
  "binary64 (327862052872572127 / 2251799813685248) = 5122844576133939 / 35184372088832"
  "binary64 (1280711144033485 / 35184372088832) = 1280711144033485 / 35184372088832"
  "binary64 (1280711144033485 / 70368744177664) = 1280711144033485 / 70368744177664"
  "binary64 (8950904259398861 / 70368744177664) = 8950904259398861 / 70368744177664"
  "binary64 (40307216664965939 / 35184372088832) = 2519201041560371 / 2199023255552"
  "binary64 (11526400296301363 / 70368744177664) = 2881600074075341 / 17592186044416"
  "binary64 (2237726064849715 / 17592186044416) = 2237726064849715 / 17592186044416"
  by (simp_all add: binary64_def round_half_even_def scale2_def Let_def)

lemma loaded182_value:
  "loaded182 = initialCropper
     \<lparr>scale := \<lparr>pt_x = 1, pt_y = 1\<rparr>,
      imageOffset := \<lparr>pt_x = 109, pt_y = 109\<rparr>,
      cropBox := \<lparr>rect_x = 8950904259398861 / 70368744177664,
                  rect_y = 8950904259398861 / 70368744177664,
                  rect_width = 5122844576133939 / 35184372088832,
                  rect_height = 5122844576133939 / 35184372088832\<rparr>\<rparr>"
  by (simp add: handleImageLoad_rnd_def Let_def binary64_values)

lemma resizing182_value:
  "resizing182 = initialCropper
     \<lparr>scale := \<lparr>pt_x = 1, pt_y = 1\<rparr>,
      imageOffset := \<lparr>pt_x = 109, pt_y = 109\<rparr>,
      cropBox := \<lparr>rect_x = 8950904259398861 / 70368744177664,
                  rect_y = 8950904259398861 / 70368744177664,
                  rect_width = 5122844576133939 / 35184372088832,
                  rect_height = 5122844576133939 / 35184372088832\<rparr>,
      startPos := \<lparr>pt_x = 250, pt_y = 250\<rparr>,
      isResizing := True\<rparr>"
  by (simp add: loaded182_value handleInteractionStart_rnd_def getEventPos_rnd_def Let_def
        binary64_values)


lemma moved182_value:
  "cropBox (handleInteractionMove_rnd binary64 refs182 \<lparr>pt_x = 1250, pt_y = 260\<rparr> resizing182)
     = \<lparr>rect_x = 2237726064849715 / 17592186044416,
        rect_y = 2237726064849715 / 17592186044416,
        rect_width = 2881600074075341 / 17592186044416,
        rect_height = 2881600074075341 / 17592186044416\<rparr>"
  apply (simp only: resizing182_value)
  apply (simp add: handleInteractionMove_rnd_def getEventPos_rnd_def Let_def initialCropper_def binary64_values)
  apply (simp add: applyInteraction_rnd_def Let_def MIN_CROP_SIZE_def binary64_values)
  apply (simp add: enforceBoundaries_rnd_def Let_def binary64_values)
  done

lemma roundUp_example:
  "cropBox (handleInteractionMove_rnd roundUp refs400 \<lparr>pt_x = 700, pt_y = 210\<rparr> resizingHalf)
     = \<lparr>rect_x = 100, rect_y = 100, rect_width = 300, rect_height = 300\<rparr>"
  apply (simp add: handleInteractionMove_rnd_def getEventPos_rnd_def Let_def initialCropper_def)
  apply (simp add: applyInteraction_rnd_def Let_def MIN_CROP_SIZE_def)
  apply (simp add: enforceBoundaries_rnd_def Let_def)
  done

text \<open>
  The rounding of binary64 is monotone. Within one binade the scale is the same and
  rounding to the nearest integer is monotone; a number in a lower binade is rounded to
  at most the upper end of its binade, a number in a higher binade to at least the
  lower end of its own.
\<close>

lemma scale2_powi: "scale2 e = 2 powi e"
  by (simp add: scale2_def power_int_def power_one_over inverse_eq_divide)

lemma scale2_pos: "0 < scale2 e"
  by (simp add: scale2_powi)

lemma scale2_add: "scale2 (a + b) = scale2 a * scale2 b"
  by (simp add: scale2_powi power_int_add)

lemma scale2_mono: "a \<le> b \<Longrightarrow> scale2 a \<le> scale2 b"
  by (simp add: scale2_powi power_int_increasing)

lemma scale2_values: "scale2 0 = 1" "scale2 1 = 2" "scale2 52 = 2 ^ 52" "scale2 53 = 2 ^ 53"
  by (simp_all add: scale2_def)

lemma scale2_Suc: "scale2 (e + 1) = 2 * scale2 e"
  by (simp add: scale2_add scale2_values)

lemma scale2_pred: "scale2 (e - 1) = scale2 e / 2"
  using scale2_Suc [of "e - 1"] by simp

lemma round_half_even_cases:
  "round_half_even x = \<lfloor>x\<rfloor> \<or> round_half_even x = \<lfloor>x\<rfloor> + 1"
  by (simp add: round_half_even_def Let_def)

lemma round_half_even_of_int: "round_half_even (of_int n) = n"
  by (simp add: round_half_even_def Let_def)

lemma round_half_even_mono:
  assumes "a \<le> b"
  shows "round_half_even a \<le> round_half_even b"
proof (cases "\<lfloor>a\<rfloor> < \<lfloor>b\<rfloor>")
  case True
  have "round_half_even a \<le> \<lfloor>a\<rfloor> + 1"
    using round_half_even_cases [of a] by linarith
  moreover have "\<lfloor>b\<rfloor> \<le> round_half_even b"
    using round_half_even_cases [of b] by linarith
  ultimately show ?thesis using True by linarith
next
  case False
  with assms have f: "\<lfloor>a\<rfloor> = \<lfloor>b\<rfloor>"
    using floor_mono [of a b] by linarith
  show ?thesis
    using assms unfolding round_half_even_def Let_def f
    by (auto split: if_splits)
qed

lemma round_half_even_le_int: "a \<le> of_int n \<Longrightarrow> round_half_even a \<le> n"
  using round_half_even_mono [of a "of_int n"] by (simp add: round_half_even_of_int)

lemma round_half_even_ge_int: "of_int n \<le> a \<Longrightarrow> n \<le> round_half_even a"
  using round_half_even_mono [of "of_int n" a] by (simp add: round_half_even_of_int)

lemma binade_range: "- int n \<le> binade n x \<and> binade n x \<le> int n"
proof (induction n arbitrary: x)
  case 0
  show ?case by simp
next
  case (Suc n)
  from Suc.IH [of "x / 2"] Suc.IH [of "x * 2"] show ?case
    by (simp del: of_nat_Suc add: of_nat_Suc [where ?'a = int])
qed

lemma abs_twice: "\<bar>x * 2\<bar> = 2 * \<bar>x\<bar>" "\<bar>x / 2\<bar> = \<bar>x\<bar> / 2" for x :: real
  by simp_all

lemma binade_lower:
  "scale2 (binade n x) \<le> \<bar>x\<bar> \<or> (binade n x = - int n \<and> \<bar>x\<bar> < 1)"
proof (induction n arbitrary: x)
  case 0
  show ?case by (simp add: scale2_values) linarith
next
  case (Suc n)
  consider "2 \<le> \<bar>x\<bar>" | "\<bar>x\<bar> < 1" | "1 \<le> \<bar>x\<bar>" "\<bar>x\<bar> < 2" by linarith
  then show ?case
  proof cases
    case 1
    then have b: "binade (Suc n) x = binade n (x / 2) + 1" by simp
    from Suc.IH [of "x / 2"] show ?thesis
    proof
      assume "scale2 (binade n (x / 2)) \<le> \<bar>x / 2\<bar>"
      then have "scale2 (binade n (x / 2) + 1) \<le> \<bar>x\<bar>"
        unfolding scale2_Suc abs_twice by linarith
      then show ?thesis unfolding b by blast
    next
      assume a: "binade n (x / 2) = - int n \<and> \<bar>x / 2\<bar> < 1"
      have "scale2 (binade n (x / 2) + 1) \<le> scale2 1"
        using a by (intro scale2_mono) simp
      then have "scale2 (binade n (x / 2) + 1) \<le> \<bar>x\<bar>"
        using 1 by (simp add: scale2_values)
      then show ?thesis unfolding b by blast
    qed
  next
    case 2
    then have b: "binade (Suc n) x = binade n (x * 2) - 1" by simp
    from Suc.IH [of "x * 2"] show ?thesis
    proof
      assume "scale2 (binade n (x * 2)) \<le> \<bar>x * 2\<bar>"
      then have "scale2 (binade n (x * 2) - 1) \<le> \<bar>x\<bar>"
        unfolding scale2_pred abs_twice by linarith
      then show ?thesis unfolding b by blast
    next
      assume a: "binade n (x * 2) = - int n \<and> \<bar>x * 2\<bar> < 1"
      then have "binade n (x * 2) - 1 = - int (Suc n)" by simp
      with 2 show ?thesis unfolding b by blast
    qed
  next
    case 3
    then have "binade (Suc n) x = 0" by simp
    with 3 show ?thesis by (simp add: scale2_values)
  qed
qed

lemma binade_upper:
  "\<bar>x\<bar> < scale2 (binade n x + 1) \<or> (binade n x = int n \<and> 2 \<le> \<bar>x\<bar>)"
proof (induction n arbitrary: x)
  case 0
  show ?case by (simp add: scale2_values) linarith
next
  case (Suc n)
  consider "2 \<le> \<bar>x\<bar>" | "\<bar>x\<bar> < 1" | "1 \<le> \<bar>x\<bar>" "\<bar>x\<bar> < 2" by linarith
  then show ?case
  proof cases
    case 1
    then have b: "binade (Suc n) x = binade n (x / 2) + 1" by simp
    from Suc.IH [of "x / 2"] show ?thesis
    proof
      assume "\<bar>x / 2\<bar> < scale2 (binade n (x / 2) + 1)"
      then have "\<bar>x\<bar> < scale2 (binade n (x / 2) + 1 + 1)"
        unfolding scale2_Suc [of "binade n (x / 2) + 1"] abs_twice by linarith
      then show ?thesis unfolding b by blast
    next
      assume "binade n (x / 2) = int n \<and> 2 \<le> \<bar>x / 2\<bar>"
      then have "binade n (x / 2) + 1 = int (Suc n)" by simp
      with 1 show ?thesis unfolding b by blast
    qed
  next
    case 2
    then have b: "binade (Suc n) x = binade n (x * 2) - 1" by simp
    from Suc.IH [of "x * 2"] show ?thesis
    proof
      assume "\<bar>x * 2\<bar> < scale2 (binade n (x * 2) + 1)"
      then have "\<bar>x\<bar> < scale2 (binade n (x * 2))"
        unfolding scale2_Suc abs_twice by linarith
      then have "\<bar>x\<bar> < scale2 (binade n (x * 2) - 1 + 1)" by simp
      then show ?thesis unfolding b by blast
    next
      assume "binade n (x * 2) = int n \<and> 2 \<le> \<bar>x * 2\<bar>"
      with 2 have False unfolding abs_twice by linarith
      then show ?thesis ..
    qed
  next
    case 3
    then have "binade (Suc n) x = 0" by simp
    with 3 show ?thesis by (simp add: scale2_values)
  qed
qed


lemma scale2_52: "scale2 b = 2 ^ 52 * scale2 (b - 52)"
  using scale2_add [of 52 "b - 52"] by (simp add: scale2_values)

lemma scale2_53: "scale2 (b + 1) = 2 ^ 53 * scale2 (b - 52)"
  using scale2_add [of 53 "b - 52"] by (simp add: scale2_values add.commute)

text \<open>The value of a number is rounded within its own binade.\<close>

lemma binary64_unfold:
  "x \<noteq> 0 \<Longrightarrow>
   binary64 x = of_int (round_half_even (x / scale2 (binade 1100 x - 52)))
                  * scale2 (binade 1100 x - 52)"
  by (simp add: binary64_def Let_def del: binade_numeral)

lemma binary64_pos_le:
  assumes "0 < x" and "x < scale2 (binade 1100 x + 1)"
  shows "binary64 x \<le> scale2 (binade 1100 x + 1)"
proof -
  let ?s = "scale2 (binade 1100 x - 52)"
  have s: "0 < ?s" by (rule scale2_pos)
  have "x / ?s \<le> of_int (2 ^ 53)"
    using assms(2) s unfolding scale2_53 [of "binade 1100 x"] by (simp add: field_simps)
  then have "round_half_even (x / ?s) \<le> 2 ^ 53"
    by (rule round_half_even_le_int)
  then have "of_int (round_half_even (x / ?s)) \<le> (2 ^ 53 :: real)"
    by (metis of_int_le_iff of_int_numeral of_int_power)
  then have "of_int (round_half_even (x / ?s)) * ?s \<le> 2 ^ 53 * ?s"
    using s by (simp add: mult_right_mono)
  then show ?thesis
    using assms(1) unfolding scale2_53 [of "binade 1100 x"] by (simp add: binary64_unfold)
qed

lemma binary64_pos_ge:
  assumes "0 < x" and "scale2 (binade 1100 x) \<le> x"
  shows "scale2 (binade 1100 x) \<le> binary64 x"
proof -
  let ?s = "scale2 (binade 1100 x - 52)"
  have s: "0 < ?s" by (rule scale2_pos)
  have "of_int (2 ^ 52) \<le> x / ?s"
    using assms(2) s unfolding scale2_52 [of "binade 1100 x"] by (simp add: field_simps)
  then have "2 ^ 52 \<le> round_half_even (x / ?s)"
    by (rule round_half_even_ge_int)
  then have "(2 ^ 52 :: real) \<le> of_int (round_half_even (x / ?s))"
    by (metis of_int_le_iff of_int_numeral of_int_power)
  then have "2 ^ 52 * ?s \<le> of_int (round_half_even (x / ?s)) * ?s"
    using s by (simp add: mult_right_mono)
  then show ?thesis
    using assms(1) unfolding scale2_52 [of "binade 1100 x"] by (simp add: binary64_unfold)
qed

lemma binary64_nonneg: "0 \<le> x \<Longrightarrow> 0 \<le> binary64 x"
proof (cases "x = 0")
  case True
  then show ?thesis by (simp add: binary64_def)
next
  case False
  assume "0 \<le> x"
  let ?s = "scale2 (binade 1100 x - 52)"
  have s: "0 < ?s" by (rule scale2_pos)
  have "of_int 0 \<le> x / ?s" using \<open>0 \<le> x\<close> s by simp
  then have "0 \<le> round_half_even (x / ?s)" by (rule round_half_even_ge_int)
  then show ?thesis using s False by (simp add: binary64_unfold)
qed

lemma binary64_nonpos: "x \<le> 0 \<Longrightarrow> binary64 x \<le> 0"
proof (cases "x = 0")
  case True
  then show ?thesis by (simp add: binary64_def)
next
  case False
  assume "x \<le> 0"
  let ?s = "scale2 (binade 1100 x - 52)"
  have s: "0 < ?s" by (rule scale2_pos)
  have "x / ?s \<le> of_int 0" using \<open>x \<le> 0\<close> s by (simp add: divide_nonpos_pos)
  then have "round_half_even (x / ?s) \<le> 0" by (rule round_half_even_le_int)
  then show ?thesis using s False by (simp add: binary64_unfold mult_le_0_iff)
qed


lemma binary64_neg_ge:
  assumes "x < 0" and "\<bar>x\<bar> < scale2 (binade 1100 x + 1)"
  shows "- scale2 (binade 1100 x + 1) \<le> binary64 x"
proof -
  let ?s = "scale2 (binade 1100 x - 52)"
  have s: "0 < ?s" by (rule scale2_pos)
  have "of_int (- (2 ^ 53)) \<le> x / ?s"
    using assms s unfolding scale2_53 [of "binade 1100 x"] by (simp add: field_simps)
  then have "- (2 ^ 53) \<le> round_half_even (x / ?s)"
    by (rule round_half_even_ge_int)
  then have "- (2 ^ 53 :: real) \<le> of_int (round_half_even (x / ?s))"
    by (metis of_int_le_iff of_int_minus of_int_numeral of_int_power)
  then have "- (2 ^ 53) * ?s \<le> of_int (round_half_even (x / ?s)) * ?s"
    using s by (simp only: mult_right_mono less_imp_le)
  then show ?thesis
    using assms(1) unfolding scale2_53 [of "binade 1100 x"] by (simp add: binary64_unfold)
qed

lemma binary64_neg_le:
  assumes "x < 0" and "scale2 (binade 1100 x) \<le> \<bar>x\<bar>"
  shows "binary64 x \<le> - scale2 (binade 1100 x)"
proof -
  let ?s = "scale2 (binade 1100 x - 52)"
  have s: "0 < ?s" by (rule scale2_pos)
  have "x / ?s \<le> of_int (- (2 ^ 52))"
    using assms s unfolding scale2_52 [of "binade 1100 x"] by (simp add: field_simps)
  then have "round_half_even (x / ?s) \<le> - (2 ^ 52)"
    by (rule round_half_even_le_int)
  then have "of_int (round_half_even (x / ?s)) \<le> - (2 ^ 52 :: real)"
    by (metis of_int_le_iff of_int_minus of_int_numeral of_int_power)
  then have "of_int (round_half_even (x / ?s)) * ?s \<le> - (2 ^ 52) * ?s"
    using s by (simp only: mult_right_mono less_imp_le)
  then show ?thesis
    using assms(1) unfolding scale2_52 [of "binade 1100 x"] by (simp add: binary64_unfold)
qed

lemma binade_abs_mono:
  assumes "\<bar>x\<bar> \<le> \<bar>y\<bar>"
  shows "binade n x \<le> binade n y"
proof (rule ccontr)
  assume "\<not> binade n x \<le> binade n y"
  then have lt: "binade n y < binade n x" by simp
  have "binade n y < int n"
    using lt binade_range [of n x] by linarith
  with binade_upper [of y n] have u: "\<bar>y\<bar> < scale2 (binade n y + 1)" by linarith
  have "- int n < binade n x"
    using lt binade_range [of n y] by linarith
  with binade_lower [of n x] have l: "scale2 (binade n x) \<le> \<bar>x\<bar>" by linarith
  have "scale2 (binade n y + 1) \<le> scale2 (binade n x)"
    using lt by (intro scale2_mono) simp
  with u l assms show False by linarith
qed

lemma binade_lt_bounds:
  assumes "binade n x < binade n y"
  shows "\<bar>x\<bar> < scale2 (binade n x + 1)" and "scale2 (binade n y) \<le> \<bar>y\<bar>"
    and "scale2 (binade n x + 1) \<le> scale2 (binade n y)"
proof -
  have "binade n x < int n"
    using assms binade_range [of n y] by linarith
  with binade_upper [of x n] show "\<bar>x\<bar> < scale2 (binade n x + 1)" by linarith
  have "- int n < binade n y"
    using assms binade_range [of n x] by linarith
  with binade_lower [of n y] show "scale2 (binade n y) \<le> \<bar>y\<bar>" by linarith
  show "scale2 (binade n x + 1) \<le> scale2 (binade n y)"
    using assms by (intro scale2_mono) simp
qed

lemma binary64_same_binade:
  assumes "x \<le> y" and "x \<noteq> 0" and "y \<noteq> 0" and "binade 1100 x = binade 1100 y"
  shows "binary64 x \<le> binary64 y"
proof -
  let ?s = "scale2 (binade 1100 y - 52)"
  have s: "0 < ?s" by (rule scale2_pos)
  have "x / ?s \<le> y / ?s"
    using assms(1) s by (simp add: divide_right_mono)
  then have "round_half_even (x / ?s) \<le> round_half_even (y / ?s)"
    by (rule round_half_even_mono)
  then have "of_int (round_half_even (x / ?s)) * ?s \<le> of_int (round_half_even (y / ?s)) * ?s"
    using s by (simp add: mult_right_mono)
  then show ?thesis
    using assms(2,3,4) by (simp add: binary64_unfold)
qed

lemma binary64_mono: "mono binary64"
proof (rule monoI)
  fix x y :: real
  assume xy: "x \<le> y"
  consider "x \<le> 0" "0 \<le> y" | "0 < x" | "y < 0" by linarith
  then show "binary64 x \<le> binary64 y"
  proof cases
    case 1
    then show ?thesis
      using binary64_nonpos [of x] binary64_nonneg [of y] by linarith
  next
    case 2
    with xy have y: "0 < y" by simp
    have "binade 1100 x \<le> binade 1100 y"
      using 2 xy by (intro binade_abs_mono) simp
    then consider "binade 1100 x = binade 1100 y" | "binade 1100 x < binade 1100 y"
      by linarith
    then show ?thesis
    proof cases
      case 1
      then show ?thesis using xy 2 y by (intro binary64_same_binade) simp_all
    next
      case lt: 2
      note b = binade_lt_bounds [OF lt]
      have "binary64 x \<le> scale2 (binade 1100 x + 1)"
        using 2 b(1) by (intro binary64_pos_le) simp_all
      moreover have "scale2 (binade 1100 y) \<le> binary64 y"
        using y b(2) by (intro binary64_pos_ge) simp_all
      ultimately show ?thesis using b(3) by linarith
    qed
  next
    case 3
    with xy have x: "x < 0" by simp
    have "binade 1100 y \<le> binade 1100 x"
      using 3 xy by (intro binade_abs_mono) simp
    then consider "binade 1100 x = binade 1100 y" | "binade 1100 y < binade 1100 x"
      by linarith
    then show ?thesis
    proof cases
      case 1
      then show ?thesis using xy 3 x by (intro binary64_same_binade) simp_all
    next
      case lt: 2
      note b = binade_lt_bounds [OF lt]
      have "- scale2 (binade 1100 y + 1) \<le> binary64 y"
        using 3 b(1) by (intro binary64_neg_ge) simp_all
      moreover have "binary64 x \<le> - scale2 (binade 1100 x)"
        using x b(2) by (intro binary64_neg_le) simp_all
      ultimately show ?thesis using b(3) by linarith
    qed
  qed
qed

section \<open>The claims about the text renderer\<close>

text \<open>
  Claim C4. For every text and every measure function the loop of \<^verbatim>\<open>wrapText\<close>
  processes the characters in order and is the iteration of the specification's step:
  a character is appended to the current line exactly when the candidate line does not
  exceed \<open>maxWidth\<close> or the current line is empty; otherwise the current line is
  pushed and a new line starts with that character.
\<close>

theorem wrap_loop_refines_spec:
  "wrapLoop measureText maxWidth text 0 [] []
     = foldl (wrapStep_spec measureText maxWidth) ([], []) text"
  using wrapLoop_foldl [of 0 "[]" measureText maxWidth "text" "[]"] by simp

text \<open>
  Claim C8. For every input text and every measure function, the lines produced by the
  wrap algorithm, concatenated in order, are the input text: no code unit is dropped,
  duplicated or reordered.
\<close>

theorem wrap_preserves_text:
  "concat (wrapLines measureText maxWidth text) = text"
  by (rule wrapLines_concat)

text \<open>
  Claim C7. Wrapping is idempotent: the line list joined back into one text and wrapped
  again at the same width gives the same line list; moreover every single line, wrapped
  on its own, stays one line.
\<close>

theorem wrap_idempotent:
  "wrapLines measureText maxWidth (concat (wrapLines measureText maxWidth text))
     = wrapLines measureText maxWidth text
   \<and> map (wrapLines measureText maxWidth) (wrapLines measureText maxWidth text)
     = map (\<lambda>l. [l]) (wrapLines measureText maxWidth text)"
proof (rule conjI)
  show "wrapLines measureText maxWidth (concat (wrapLines measureText maxWidth text))
      = wrapLines measureText maxWidth text"
    by (simp only: wrapLines_concat)
  show "map (wrapLines measureText maxWidth) (wrapLines measureText maxWidth text)
      = map (\<lambda>l. [l]) (wrapLines measureText maxWidth text)"
    by (rule map_cong [OF refl]) (erule wrapLines_each_line)
qed

text \<open>
  Claim C9. Every line produced by the wrap algorithm either has measured width not
  exceeding \<open>maxWidth\<close> or consists of exactly one code unit: for every nonempty text
  under every measure function and every \<open>maxWidth\<close>, and for the empty text (whose one
  line is the empty string) whenever the empty string is not wider than \<open>maxWidth\<close>.
  Both callers pass a canvas context and \<open>maxWidth = canvas.width * 0.9\<close>; the width
  that a canvas measures for the empty string is 0.
\<close>

theorem wrapped_lines_fit:
  "text \<noteq> [] \<or> measureText [] \<le> maxWidth \<Longrightarrow>
   \<forall>l\<in>set (wrapLines measureText maxWidth text). measureText l \<le> maxWidth \<or> length l = 1"
  using wrapLoop_lines_fit [of "[]" measureText maxWidth 0 "[]" "text"]
  by (cases "wrapLoop measureText maxWidth text 0 [] []") (auto simp add: wrapLines_def)

text \<open>
  Glyphs of width 200 at the width 460.8 of the preview: three of them give two lines,
  and the empty text gives the empty line, of width 0.
\<close>

theorem wrapped_lines_fit_witness:
  "wrapLines (glyphWidth 200) 460.8 exampleText = [[0x4F60, 0x597D], [0x5440]]
   \<and> list_all (\<lambda>l. glyphWidth 200 l \<le> 460.8 \<or> length l = 1)
        (wrapLines (glyphWidth 200) 460.8 exampleText)
   \<and> glyphWidth 200 [] \<le> 460.8
   \<and> wrapLines (glyphWidth 200) 460.8 [] = [[]]
   \<and> list_all (\<lambda>l. glyphWidth 200 l \<le> 460.8 \<or> length l = 1)
        (wrapLines (glyphWidth 200) 460.8 [])"
  using wrapped_lines_fit [of exampleText "glyphWidth 200" "460.8"]
    wrapped_lines_fit [of "[]" "glyphWidth 200" "460.8"]
  by (simp add: list_all_iff wrapLines_def wrapLoop_step wrapLoop_exit)

text \<open>
  Claim C5, as amended. For the empty text the loop does not run and the final
  \<^verbatim>\<open>lines.push(line)\<close> pushes the empty line: the line list is the one empty line, and
  the draw loop makes one stroke call and one fill call, both with the empty string at
  the anchor position.
\<close>

theorem empty_text_one_empty_line:
  "wrapLines measureText maxWidth [] = [[]]
   \<and> wrapText measureText [] x y maxWidth lineHeight = [StrokeText [] x y, FillText [] x y]"
  by (simp add: wrapLines_Nil wrapText_Nil)

text \<open>
  The claim as stated (zero lines, no stroke or fill call) fails: at the preview's
  width and anchor the empty text gives one line and two calls.
\<close>

theorem empty_text_counterexample:
  "\<not> (wrapLines (\<lambda>s. real (length s)) 460.8 [] = []
       \<or> wrapText (\<lambda>s. real (length s)) [] 256 482 460.8 61.2 = [])"
  by (simp add: wrapLines_Nil wrapText_Nil)

text \<open>
  Claim C6. For every line list the draw loop draws the last line at \<open>y\<close> and the line
  \<open>j\<close> places before the last at \<open>y - j * lineHeight\<close>, each line stroked and then
  filled; \<^verbatim>\<open>MemePreview\<close> calls it with \<open>y = canvas.height - textYOffset\<close> and
  \<open>lineHeight = fontSize * 1.2\<close>. In particular a text that fits one line at font size
  51 and offset 30 on the 512 wide preview is drawn as a single line at \<open>y = 482\<close>. The
  text fits one line when each of its prefixes of two or more code units measures at
  most \<open>0.9 * 512\<close> (the loop never breaks before the first code unit); for a measure
  under which no prefix of the text is wider than the text, that is when the text
  itself measures at most \<open>0.9 * 512\<close>.
\<close>

theorem lines_drawn_bottom_up:
  "drawLoop ls x lineHeight (int (length ls) - 1) y =
     concat (map (\<lambda>(j, l). [StrokeText l x (y - real j * lineHeight),
                               FillText l x (y - real j * lineHeight)])
                 (enumerate 0 (rev ls)))
   \<and> memePreviewDrawText measureText canvasWidth canvasHeight text fontSize textYOffset =
     concat (map (\<lambda>(j, l).
                    [StrokeText l (canvasWidth / 2)
                       (canvasHeight - textYOffset - real j * (fontSize * 1.2)),
                     FillText l (canvasWidth / 2)
                       (canvasHeight - textYOffset - real j * (fontSize * 1.2))])
                 (enumerate 0 (rev (wrapLines (measureText fontSize) (canvasWidth * 0.9) text))))
   \<and> ((\<forall>k. 2 \<le> k \<and> k \<le> length text
             \<longrightarrow> measureText 51 (take k text) \<le> PREVIEW_SIZE * 0.9) \<longrightarrow>
        memePreviewDrawText measureText PREVIEW_SIZE PREVIEW_SIZE text 51 30
          = [StrokeText text 256 482, FillText text 256 482])
   \<and> (measureText 51 text \<le> PREVIEW_SIZE * 0.9
        \<and> (\<forall>k. k \<le> length text \<longrightarrow> measureText 51 (take k text) \<le> measureText 51 text) \<longrightarrow>
        memePreviewDrawText measureText PREVIEW_SIZE PREVIEW_SIZE text 51 30
          = [StrokeText text 256 482, FillText text 256 482])"
proof -
  have loop: "drawLoop ls x lineHeight (int (length ls) - 1) y =
     concat (map (\<lambda>(j, l). [StrokeText l x (y - real j * lineHeight),
                               FillText l x (y - real j * lineHeight)])
                 (enumerate 0 (rev ls)))"
    by (rule drawLoop_enumerate)
  have preview:
    "memePreviewDrawText measureText canvasWidth canvasHeight text fontSize textYOffset =
     concat (map (\<lambda>(j, l).
                    [StrokeText l (canvasWidth / 2)
                       (canvasHeight - textYOffset - real j * (fontSize * 1.2)),
                     FillText l (canvasWidth / 2)
                       (canvasHeight - textYOffset - real j * (fontSize * 1.2))])
                 (enumerate 0 (rev (wrapLines (measureText fontSize) (canvasWidth * 0.9) text))))"
    by (simp only: memePreviewDrawText_def wrapText_def Let_def drawLoop_enumerate)
  have one: "memePreviewDrawText measureText PREVIEW_SIZE PREVIEW_SIZE text 51 30
          = [StrokeText text 256 482, FillText text 256 482]"
    if fit: "\<forall>k. 2 \<le> k \<and> k \<le> length text
               \<longrightarrow> measureText 51 (take k text) \<le> PREVIEW_SIZE * 0.9"
  proof -
    have "wrapLines (measureText 51) (PREVIEW_SIZE * 0.9) text = [text]"
      using fit by (rule wrapLines_prefixes_fit)
    then show ?thesis
      by (simp add: memePreviewDrawText_def wrapText_def Let_def drawLoop_nonneg drawLoop_neg
            PREVIEW_SIZE_def)
  qed
  have whole: "memePreviewDrawText measureText PREVIEW_SIZE PREVIEW_SIZE text 51 30
          = [StrokeText text 256 482, FillText text 256 482]"
    if w: "measureText 51 text \<le> PREVIEW_SIZE * 0.9"
      and p: "\<forall>k. k \<le> length text \<longrightarrow> measureText 51 (take k text) \<le> measureText 51 text"
  proof (rule one, intro allI impI)
    fix k
    assume "2 \<le> k \<and> k \<le> length text"
    with p have "measureText 51 (take k text) \<le> measureText 51 text"
      by blast
    with w show "measureText 51 (take k text) \<le> PREVIEW_SIZE * 0.9"
      by linarith
  qed
  from loop preview one whole show ?thesis
    by blast
qed

text \<open>
  Three glyphs, each as wide as the font size: no prefix is wider than the text, which
  measures 153 pixels.
\<close>

theorem lines_drawn_bottom_up_witness:
  "glyphWidth 51 exampleText \<le> PREVIEW_SIZE * 0.9
   \<and> list_all (\<lambda>k. glyphWidth 51 (take k exampleText) \<le> glyphWidth 51 exampleText)
        [0, 1, 2, 3]
   \<and> list_all (\<lambda>k. glyphWidth 51 (take k exampleText) \<le> PREVIEW_SIZE * 0.9) [2, 3]
   \<and> memePreviewDrawText glyphWidth PREVIEW_SIZE PREVIEW_SIZE exampleText 51 30
       = [StrokeText exampleText 256 482, FillText exampleText 256 482]"
proof -
  have w: "glyphWidth 51 exampleText \<le> PREVIEW_SIZE * 0.9"
    by (simp add: PREVIEW_SIZE_def)
  have p: "\<forall>k. k \<le> length exampleText
             \<longrightarrow> glyphWidth 51 (take k exampleText) \<le> glyphWidth 51 exampleText"
    by simp
  have f: "\<forall>k. 2 \<le> k \<and> k \<le> length exampleText
             \<longrightarrow> glyphWidth 51 (take k exampleText) \<le> PREVIEW_SIZE * 0.9"
    by (simp add: PREVIEW_SIZE_def)
  note t = lines_drawn_bottom_up [of _ _ _ _ glyphWidth _ _ exampleText]
  from t f have d: "memePreviewDrawText glyphWidth PREVIEW_SIZE PREVIEW_SIZE exampleText 51 30
       = [StrokeText exampleText 256 482, FillText exampleText 256 482]"
    by blast
  from t w p have "memePreviewDrawText glyphWidth PREVIEW_SIZE PREVIEW_SIZE exampleText 51 30
       = [StrokeText exampleText 256 482, FillText exampleText 256 482]"
    by blast
  have a: "list_all (\<lambda>k. glyphWidth 51 (take k exampleText) \<le> glyphWidth 51 exampleText)
             [0, 1, 2, 3]"
    by simp
  have b: "list_all (\<lambda>k. glyphWidth 51 (take k exampleText) \<le> PREVIEW_SIZE * 0.9) [2, 3]"
    by (simp add: PREVIEW_SIZE_def)
  from w a b d show ?thesis
    by blast
qed

section \<open>The claims about the crop selection\<close>

text \<open>
  Claim C1. The display-to-source conversion maps a display rectangle to
  \<open>((x - offset.x) * scale.x, (y - offset.y) * scale.y, width * scale.x, height * scale.y)\<close>.
  For an image of natural size 1000 by 800 rendered at 400 by 320 in a 400 by 400
  container, \<^verbatim>\<open>handleImageLoad\<close> sets the scale (2.5, 2.5) and the offset (0, 40), and
  the display rectangle (100, 140, 100, 100) converts to (250, 250, 250, 250).
\<close>

theorem display_to_source_conversion:
  "convertDisplayToSourceCrop s d =
     \<lparr>rect_x = (rect_x d - pt_x (imageOffset s)) * pt_x (scale s),
      rect_y = (rect_y d - pt_y (imageOffset s)) * pt_y (scale s),
      rect_width = rect_width d * pt_x (scale s),
      rect_height = rect_height d * pt_y (scale s)\<rparr>
   \<and> scale (handleImageLoad
        (Some \<lparr>rectLeft = l, rectTop = t, containerWidth = 400, containerHeight = 400\<rparr>)
        \<lparr>naturalWidth = 1000, naturalHeight = 800, imageClientWidth = 400, imageClientHeight = 320\<rparr>
        s0) = \<lparr>pt_x = 2.5, pt_y = 2.5\<rparr>
   \<and> imageOffset (handleImageLoad
        (Some \<lparr>rectLeft = l, rectTop = t, containerWidth = 400, containerHeight = 400\<rparr>)
        \<lparr>naturalWidth = 1000, naturalHeight = 800, imageClientWidth = 400, imageClientHeight = 320\<rparr>
        s0) = \<lparr>pt_x = 0, pt_y = 40\<rparr>
   \<and> convertDisplayToSourceCrop
       (handleImageLoad
         (Some \<lparr>rectLeft = l, rectTop = t, containerWidth = 400, containerHeight = 400\<rparr>)
         \<lparr>naturalWidth = 1000, naturalHeight = 800, imageClientWidth = 400, imageClientHeight = 320\<rparr>
         s0)
       \<lparr>rect_x = 100, rect_y = 140, rect_width = 100, rect_height = 100\<rparr>
     = \<lparr>rect_x = 250, rect_y = 250, rect_width = 250, rect_height = 250\<rparr>"
  by (simp add: convertDisplayToSourceCrop_def handleImageLoad_def Let_def)



text \<open>
  Claim C3, as amended. In Resizing mode an interaction-move with pointer delta
  \<open>(dx, dy)\<close> takes \<open>growth = max dx dy\<close>, and sets both width and height to
  \<open>min (max MIN_CROP_SIZE (width + growth)) (min (right - x) (bottom - y))\<close>: the lower
  clamp is applied first and the upper clamp last. So the new size never exceeds
  \<open>min (right - x) (bottom - y)\<close>, and it is at least \<open>MIN_CROP_SIZE\<close> whenever that
  room is. Resizing with delta (500, 10) from (100, 100, 100, 100) inside a 400 by 400
  bound gives the size 300.
\<close>

theorem resize_clamps_size:
  "(isResizing s \<and> imageRef r = Some img \<longrightarrow>
      rect_width (cropBox (handleInteractionMove r client s)) =
           min (max MIN_CROP_SIZE
                  (rect_width (cropBox s)
                   + max (pt_x (getEventPos (containerRef r) client) - pt_x (startPos s))
                         (pt_y (getEventPos (containerRef r) client) - pt_y (startPos s))))
               (min (pt_x (imageOffset s) + imageClientWidth img - rect_x (cropBox s))
                    (pt_y (imageOffset s) + imageClientHeight img - rect_y (cropBox s)))
       \<and> rect_height (cropBox (handleInteractionMove r client s))
           = rect_width (cropBox (handleInteractionMove r client s))
       \<and> rect_width (cropBox (handleInteractionMove r client s))
           \<le> min (pt_x (imageOffset s) + imageClientWidth img - rect_x (cropBox s))
                 (pt_y (imageOffset s) + imageClientHeight img - rect_y (cropBox s))
       \<and> (MIN_CROP_SIZE \<le> min (pt_x (imageOffset s) + imageClientWidth img - rect_x (cropBox s))
                               (pt_y (imageOffset s) + imageClientHeight img - rect_y (cropBox s))
            \<longrightarrow> MIN_CROP_SIZE \<le> rect_width (cropBox (handleInteractionMove r client s))))
   \<and> cropBox (handleInteractionMove refs400 \<lparr>pt_x = 700, pt_y = 210\<rparr> resizing100)
     = \<lparr>rect_x = 100, rect_y = 100, rect_width = 300, rect_height = 300\<rparr>"
proof (intro conjI)
  show "cropBox (handleInteractionMove refs400 \<lparr>pt_x = 700, pt_y = 210\<rparr> resizing100)
     = \<lparr>rect_x = 100, rect_y = 100, rect_width = 300, rect_height = 300\<rparr>"
    by (simp add: initialCropper_def MIN_CROP_SIZE_def handleInteractionMove_def
          getEventPos_def applyInteraction_def enforceBoundaries_def Let_def)
qed (use resize_size_formula in blast)

text \<open>
  The claim as stated (the new size is at least \<open>MIN_CROP_SIZE\<close> and at most the room)
  fails where the room is below the minimum. A 40 by 40 image gets the initial crop
  (4, 4, 32, 32); a resize with delta (0, 0) then gives the size 36.
\<close>

theorem resize_clamp_counterexample:
  "cropBox (handleImageLoad (Some container40) img40 initialCropper)
     = \<lparr>rect_x = 4, rect_y = 4, rect_width = 32, rect_height = 32\<rparr>
   \<and> isResizing
        (handleInteractionStart refs40 \<lparr>pt_x = 36, pt_y = 36\<rparr> Resize
            (handleImageLoad (Some container40) img40 initialCropper))
   \<and> rect_width (cropBox
        (handleInteractionMove refs40 \<lparr>pt_x = 36, pt_y = 36\<rparr>
          (handleInteractionStart refs40 \<lparr>pt_x = 36, pt_y = 36\<rparr> Resize
            (handleImageLoad (Some container40) img40 initialCropper)))) = 36
   \<and> \<not> MIN_CROP_SIZE \<le> rect_width (cropBox
        (handleInteractionMove refs40 \<lparr>pt_x = 36, pt_y = 36\<rparr>
          (handleInteractionStart refs40 \<lparr>pt_x = 36, pt_y = 36\<rparr> Resize
            (handleImageLoad (Some container40) img40 initialCropper))))"
  by (simp add: initialCropper_def MIN_CROP_SIZE_def handleImageLoad_def
        handleInteractionStart_def handleInteractionMove_def
        getEventPos_def applyInteraction_def enforceBoundaries_def Let_def)

text \<open>The scenario of the claim, with the pointer moved from (200, 200) to (700, 210).\<close>

theorem resize_clamps_size_witness:
  "isResizing resizing100
   \<and> MIN_CROP_SIZE \<le> min (0 + 400 - 100) (0 + 400 - 100)
   \<and> rect_width (cropBox (handleInteractionMove refs400 \<lparr>pt_x = 700, pt_y = 210\<rparr> resizing100)) = 300
   \<and> MIN_CROP_SIZE \<le> rect_width (cropBox (handleInteractionMove refs400 \<lparr>pt_x = 700, pt_y = 210\<rparr> resizing100))"
  using resize_clamps_size [of resizing100 refs400 img400 "\<lparr>pt_x = 700, pt_y = 210\<rparr>"]
  by (simp add: initialCropper_def MIN_CROP_SIZE_def getEventPos_def)

text \<open>
  Claim C10, as amended. In Resizing mode, from a rectangle with \<open>x \<ge> offset.x\<close> and
  \<open>y \<ge> offset.y\<close>, an interaction-move leaves the top-left corner where it is when
  the arithmetic is exact: \<open>x\<close> and \<open>y\<close> are unchanged and the position re-clamp that
  follows the resize branch returns the rectangle it is given. With rounding after
  every operation, whatever the rounding function \<open>fl\<close>, the corner does not move right
  or down and does not leave the offset; and for every monotone rounding function,
  so for the rounding of binary64, \<open>x\<close> stays at or above
  \<open>min x (fl (A - fl (A - x)))\<close> with \<open>A = fl (offset.x + renderedWidth)\<close>, and likewise
  \<open>y\<close>: the re-clamp moves the corner by no more than the rounding error of that round
  trip.
\<close>

theorem resize_keeps_corner:
  assumes "isResizing s"
    and "pt_x (imageOffset s) \<le> rect_x (cropBox s)"
    and "pt_y (imageOffset s) \<le> rect_y (cropBox s)"
  shows "rect_x (cropBox (handleInteractionMove r client s)) = rect_x (cropBox s)
       \<and> rect_y (cropBox (handleInteractionMove r client s)) = rect_y (cropBox s)
       \<and> enforceBoundaries (imageOffset s) W H
            (applyInteraction True dg (imageOffset s) W H dx dy (cropBox s))
          = applyInteraction True dg (imageOffset s) W H dx dy (cropBox s)
       \<and> handleInteractionMove_rnd (\<lambda>t. t) r client s = handleInteractionMove r client s
       \<and> pt_x (imageOffset s) \<le> rect_x (cropBox (handleInteractionMove_rnd rnd r client s))
       \<and> rect_x (cropBox (handleInteractionMove_rnd rnd r client s)) \<le> rect_x (cropBox s)
       \<and> pt_y (imageOffset s) \<le> rect_y (cropBox (handleInteractionMove_rnd rnd r client s))
       \<and> rect_y (cropBox (handleInteractionMove_rnd rnd r client s)) \<le> rect_y (cropBox s)
       \<and> (mono rnd \<and> imageRef r = Some img \<longrightarrow>
            min (rect_x (cropBox s))
                (rnd (rnd (pt_x (imageOffset s) + imageClientWidth img)
                      - rnd (rnd (pt_x (imageOffset s) + imageClientWidth img)
                             - rect_x (cropBox s))))
              \<le> rect_x (cropBox (handleInteractionMove_rnd rnd r client s))
          \<and> min (rect_y (cropBox s))
                (rnd (rnd (pt_y (imageOffset s) + imageClientHeight img)
                      - rnd (rnd (pt_y (imageOffset s) + imageClientHeight img)
                             - rect_y (cropBox s))))
              \<le> rect_y (cropBox (handleInteractionMove_rnd rnd r client s)))
       \<and> (imageRef r = Some img \<longrightarrow>
            min (rect_x (cropBox s))
                (binary64 (binary64 (pt_x (imageOffset s) + imageClientWidth img)
                           - binary64 (binary64 (pt_x (imageOffset s) + imageClientWidth img)
                                       - rect_x (cropBox s))))
              \<le> rect_x (cropBox (handleInteractionMove_rnd binary64 r client s))
          \<and> min (rect_y (cropBox s))
                (binary64 (binary64 (pt_y (imageOffset s) + imageClientHeight img)
                           - binary64 (binary64 (pt_y (imageOffset s) + imageClientHeight img)
                                       - rect_y (cropBox s))))
              \<le> rect_y (cropBox (handleInteractionMove_rnd binary64 r client s)))"
proof -
  have exact: "rect_x (cropBox (handleInteractionMove r client s)) = rect_x (cropBox s)
       \<and> rect_y (cropBox (handleInteractionMove r client s)) = rect_y (cropBox s)"
  proof (cases "imageRef r")
    case None
    then show ?thesis by (simp add: handleInteractionMove_def)
  next
    case (Some i)
    show ?thesis
      by (simp only: handleInteractionMove_resizing [OF assms(1) Some]
          resize_reclamp_noop [OF assms(2,3)] applyInteraction_resize_fields simp_thms)
  qed
  have noop: "enforceBoundaries (imageOffset s) W H
            (applyInteraction True dg (imageOffset s) W H dx dy (cropBox s))
          = applyInteraction True dg (imageOffset s) W H dx dy (cropBox s)"
    using assms(2,3) by (rule resize_reclamp_noop)
  have rounded: "pt_x (imageOffset s) \<le> rect_x (cropBox (handleInteractionMove_rnd rnd r client s))
       \<and> rect_x (cropBox (handleInteractionMove_rnd rnd r client s)) \<le> rect_x (cropBox s)
       \<and> pt_y (imageOffset s) \<le> rect_y (cropBox (handleInteractionMove_rnd rnd r client s))
       \<and> rect_y (cropBox (handleInteractionMove_rnd rnd r client s)) \<le> rect_y (cropBox s)"
  proof (cases "imageRef r")
    case None
    then show ?thesis using assms(2,3) by (simp add: handleInteractionMove_rnd_def)
  next
    case (Some i)
    show ?thesis
      unfolding handleInteractionMove_rnd_resizing [OF assms(1) Some]
      using resize_rnd_corner_x [OF assms(2)] resize_rnd_corner_y [OF assms(3)] by blast
  qed
  have drift: "min (rect_x (cropBox s))
                (rnd (rnd (pt_x (imageOffset s) + imageClientWidth img)
                      - rnd (rnd (pt_x (imageOffset s) + imageClientWidth img)
                             - rect_x (cropBox s))))
              \<le> rect_x (cropBox (handleInteractionMove_rnd rnd r client s))
          \<and> min (rect_y (cropBox s))
                (rnd (rnd (pt_y (imageOffset s) + imageClientHeight img)
                      - rnd (rnd (pt_y (imageOffset s) + imageClientHeight img)
                             - rect_y (cropBox s))))
              \<le> rect_y (cropBox (handleInteractionMove_rnd rnd r client s))"
    if m: "mono rnd" and i: "imageRef r = Some img"
    unfolding handleInteractionMove_rnd_resizing [OF assms(1) i]
    using resize_rnd_drift_x [OF m] resize_rnd_drift_y [OF m] by blast
  have drift64: "min (rect_x (cropBox s))
                (binary64 (binary64 (pt_x (imageOffset s) + imageClientWidth img)
                           - binary64 (binary64 (pt_x (imageOffset s) + imageClientWidth img)
                                       - rect_x (cropBox s))))
              \<le> rect_x (cropBox (handleInteractionMove_rnd binary64 r client s))
          \<and> min (rect_y (cropBox s))
                (binary64 (binary64 (pt_y (imageOffset s) + imageClientHeight img)
                           - binary64 (binary64 (pt_y (imageOffset s) + imageClientHeight img)
                                       - rect_y (cropBox s))))
              \<le> rect_y (cropBox (handleInteractionMove_rnd binary64 r client s))"
    if i: "imageRef r = Some img"
    unfolding handleInteractionMove_rnd_resizing [OF assms(1) i]
    using resize_rnd_drift_x [OF binary64_mono] resize_rnd_drift_y [OF binary64_mono] by blast
  show ?thesis
    using exact noop rounded drift drift64 handleInteractionMove_exact by blast
qed

text \<open>
  The claim as stated (\<open>x\<close> and \<open>y\<close> unchanged, the re-clamp without effect) fails in
  binary64. The 182 by 182 image loads the crop corner \<open>x = 127.2\<close> (the double
  8950904259398861 / 2^46) at offset 109; a resize by (1000, 10) is clamped to the size
  \<open>fl (291 - x)\<close>, which is rounded up, so \<open>maxX = fl (291 - size)\<close> is the next double
  below \<open>x\<close>, and the re-clamp moves the corner there.
\<close>

theorem resize_keeps_corner_counterexample:
  "isResizing resizing182
   \<and> pt_x (imageOffset resizing182) \<le> rect_x (cropBox resizing182)
   \<and> pt_y (imageOffset resizing182) \<le> rect_y (cropBox resizing182)
   \<and> rect_x (cropBox resizing182) = 8950904259398861 / 70368744177664
   \<and> rect_x (cropBox (handleInteractionMove_rnd binary64 refs182
                          \<lparr>pt_x = 1250, pt_y = 260\<rparr> resizing182))
       = 2237726064849715 / 17592186044416
   \<and> rect_x (cropBox (handleInteractionMove_rnd binary64 refs182
                          \<lparr>pt_x = 1250, pt_y = 260\<rparr> resizing182))
       < rect_x (cropBox resizing182)"
  apply (simp only: moved182_value)
  apply (simp only: resizing182_value)
  apply simp
  done

text \<open>
  Two inputs. In binary64, the resize by (1000, 10) after the load of the 182 by 182
  image: the corner stays between the offset 109 and its old place. With rounding to
  the next integer above, the resize by (500, 10) of the rectangle at (100.5, 100.5) in
  the 400 by 400 image: the corner moves to 100, the value of the round trip
  \<open>fl (400 - fl (400 - 100.5))\<close>; in exact arithmetic it stays at 100.5.
\<close>

theorem resize_keeps_corner_witness:
  "isResizing resizing182
   \<and> pt_x (imageOffset resizing182) \<le> rect_x (cropBox resizing182)
   \<and> pt_y (imageOffset resizing182) \<le> rect_y (cropBox resizing182)
   \<and> pt_x (imageOffset resizing182)
       \<le> rect_x (cropBox (handleInteractionMove_rnd binary64 refs182
                             \<lparr>pt_x = 1250, pt_y = 260\<rparr> resizing182))
   \<and> rect_x (cropBox (handleInteractionMove_rnd binary64 refs182
                          \<lparr>pt_x = 1250, pt_y = 260\<rparr> resizing182))
       \<le> rect_x (cropBox resizing182)
   \<and> min (rect_x (cropBox resizing182))
         (binary64 (binary64 (pt_x (imageOffset resizing182) + imageClientWidth img182)
                    - binary64 (binary64 (pt_x (imageOffset resizing182) + imageClientWidth img182)
                                - rect_x (cropBox resizing182))))
       \<le> rect_x (cropBox (handleInteractionMove_rnd binary64 refs182
                             \<lparr>pt_x = 1250, pt_y = 260\<rparr> resizing182))
   \<and> isResizing resizingHalf
   \<and> pt_x (imageOffset resizingHalf) \<le> rect_x (cropBox resizingHalf)
   \<and> pt_y (imageOffset resizingHalf) \<le> rect_y (cropBox resizingHalf)
   \<and> mono roundUp
   \<and> rect_x (cropBox (handleInteractionMove refs400 \<lparr>pt_x = 700, pt_y = 210\<rparr> resizingHalf))
       = 100.5
   \<and> rect_x (cropBox (handleInteractionMove_rnd roundUp refs400 \<lparr>pt_x = 700, pt_y = 210\<rparr>
                          resizingHalf)) = 100
   \<and> rect_x (cropBox (handleInteractionMove_rnd roundUp refs400 \<lparr>pt_x = 700, pt_y = 210\<rparr>
                          resizingHalf)) \<le> rect_x (cropBox resizingHalf)"
proof -
  have g1: "isResizing resizing182"
    by (simp only: resizing182_value) simp
  have g2: "pt_x (imageOffset resizing182) \<le> rect_x (cropBox resizing182)"
    by (simp only: resizing182_value) simp
  have g3: "pt_y (imageOffset resizing182) \<le> rect_y (cropBox resizing182)"
    by (simp only: resizing182_value) simp
  note u = resize_keeps_corner
    [where s = resizing182 and r = refs182 and client = "\<lparr>pt_x = 1250, pt_y = 260\<rparr>"
       and rnd = binary64 and img = img182, OF g1 g2 g3]
  from u have e1: "pt_x (imageOffset resizing182)
       \<le> rect_x (cropBox (handleInteractionMove_rnd binary64 refs182
                             \<lparr>pt_x = 1250, pt_y = 260\<rparr> resizing182))"
    by blast
  from u have e2: "rect_x (cropBox (handleInteractionMove_rnd binary64 refs182
                          \<lparr>pt_x = 1250, pt_y = 260\<rparr> resizing182))
       \<le> rect_x (cropBox resizing182)"
    by blast
  from u have e3: "min (rect_x (cropBox resizing182))
         (binary64 (binary64 (pt_x (imageOffset resizing182) + imageClientWidth img182)
                    - binary64 (binary64 (pt_x (imageOffset resizing182) + imageClientWidth img182)
                                - rect_x (cropBox resizing182))))
       \<le> rect_x (cropBox (handleInteractionMove_rnd binary64 refs182
                             \<lparr>pt_x = 1250, pt_y = 260\<rparr> resizing182))"
    by simp
  have h1: "isResizing resizingHalf"
    by simp
  have h2: "pt_x (imageOffset resizingHalf) \<le> rect_x (cropBox resizingHalf)"
    by (simp add: initialCropper_def)
  have h3: "pt_y (imageOffset resizingHalf) \<le> rect_y (cropBox resizingHalf)"
    by (simp add: initialCropper_def)
  have m: "mono roundUp"
    by (simp add: mono_def ceiling_mono)
  note t = resize_keeps_corner
    [where s = resizingHalf and r = refs400 and client = "\<lparr>pt_x = 700, pt_y = 210\<rparr>"
       and rnd = roundUp and img = img400 and W = 400 and H = 400 and dg = False
       and dx = 500 and dy = 10, OF h1 h2 h3]
  from t have "rect_x (cropBox (handleInteractionMove refs400 \<lparr>pt_x = 700, pt_y = 210\<rparr>
                 resizingHalf)) = rect_x (cropBox resizingHalf)"
    by blast
  then have a: "rect_x (cropBox (handleInteractionMove refs400 \<lparr>pt_x = 700, pt_y = 210\<rparr>
                  resizingHalf)) = 100.5"
    by simp
  from t have b: "rect_x (cropBox (handleInteractionMove_rnd roundUp refs400
                    \<lparr>pt_x = 700, pt_y = 210\<rparr> resizingHalf)) \<le> rect_x (cropBox resizingHalf)"
    by blast
  have d: "rect_x (cropBox (handleInteractionMove_rnd roundUp refs400
             \<lparr>pt_x = 700, pt_y = 210\<rparr> resizingHalf)) = 100"
    by (simp only: roundUp_example) simp
  from g1 g2 g3 e1 e2 e3 h1 h2 h3 m a d b show ?thesis
    by blast
qed

end
